theory Spec2Isabelle
  imports Main
begin

section \<open>Data model of the input service\<close>

text \<open>
  The enumerations of \<^verbatim>\<open>InputService.ts\<close>: the fixed universe of actions, the
  interaction contexts and the discrete action states.
\<close>

datatype InputActionType =
    MOVE_FORWARD | MOVE_BACKWARD | MOVE_LEFT | MOVE_RIGHT | JUMP | SPRINT | CROUCH
  | ATTACK_PRIMARY | ATTACK_SECONDARY | RELOAD | AIM
  | USE_ABILITY_1 | USE_ABILITY_2 | USE_ABILITY_3
  | INTERACT | USE_ITEM | PICK_UP | DROP
  | MENU_TOGGLE | INVENTORY_TOGGLE | MAP_TOGGLE | QUEST_LOG_TOGGLE | PAUSE
  | ENTER_EXIT_VEHICLE | VEHICLE_ACCELERATE | VEHICLE_BRAKE | VEHICLE_TURN_LEFT
  | VEHICLE_TURN_RIGHT
  | CAMERA_LOOK | CAMERA_ZOOM
  | GRAPPLE | RELEASE_GRAPPLE

datatype InputContext = PLAYER | VEHICLE | UI | MENU | DIALOG | CUTSCENE

datatype InputState = PRESSED | RELEASED | HELD

text \<open>
  \<^verbatim>\<open>IInputBinding\<close>. The optional \<^verbatim>\<open>secondary\<close> is \<open>None\<close> when the property is
  absent or \<^verbatim>\<open>undefined\<close>. The field \<^verbatim>\<open>context\<close> is spelled \<open>bcontext\<close> here.
  Control tokens are strings of characters with code points below 256.
\<close>

record IInputBinding =
  action :: InputActionType
  primary :: string
  secondary :: "string option"
  bcontext :: InputContext
  description :: string
  rebindable :: bool

text \<open>
  The second argument of a handler: a number for the movement actions, an
  \<^verbatim>\<open>InputVector2\<close> for the camera action, \<^verbatim>\<open>undefined\<close> (\<open>None\<close>) otherwise.
  Every number the service ever stores or passes is a small integer.
\<close>

datatype payload = Num int | Vec int int

text \<open>
  A handler is a callback supplied by a consumer. The service never looks inside it; it
  only calls it. The model keeps the identity of the function object (\<open>hid\<close>, the key under
  which the JavaScript \<^verbatim>\<open>Set\<close> holds it) and the one thing the callback can do to the
  control flow of the service: raise an exception when called with given arguments
  (\<open>raises\<close>). Callbacks that call back into the service are outside the model.
\<close>

record handler =
  hid :: nat
  raises :: "InputState \<Rightarrow> payload option \<Rightarrow> bool"

datatype error = HandlerError nat

type_synonym 'a result = "error + 'a"

text \<open>One handler invocation, as observed from outside: action, handler, state, value.\<close>

type_synonym invocation = "InputActionType \<times> nat \<times> InputState \<times> payload option"

text \<open>
  The fields of the class \<^verbatim>\<open>InputService\<close>. A JavaScript \<^verbatim>\<open>Map\<close> iterates in insertion
  order, so the maps the code iterates over are association lists in that order. Two
  further fields stand for the world outside the object: \<open>storage\<close> is the item
  \<^verbatim>\<open>input_bindings\<close> of \<^verbatim>\<open>localStorage\<close> (\<open>None\<close> when it is missing; the array of
  bindings that \<^verbatim>\<open>JSON.parse\<close> gives back otherwise), and \<open>calls\<close> logs every handler
  invocation in the order it happens.
\<close>

record InputService =
  actionHandlers :: "(InputActionType \<times> handler list) list"
  bindings :: "(InputActionType \<times> IInputBinding) list"
  activeContexts :: "InputContext set"
  keyStates :: "(string \<times> bool) list"
  actionStates :: "InputActionType \<rightharpoonup> InputState"
  axisValues :: "(InputActionType \<times> int) list"
  storage :: "IInputBinding list option"
  calls :: "invocation list"

subsection \<open>JavaScript primitives\<close>

text \<open>\<^verbatim>\<open>Map.prototype.set\<close>: overwrite in place, or append a new key at the end.\<close>

fun map_set :: "'k \<Rightarrow> 'v \<Rightarrow> ('k \<times> 'v) list \<Rightarrow> ('k \<times> 'v) list" where
  "map_set k v [] = [(k, v)]"
| "map_set k v ((k', v') # m) = (if k' = k then (k, v) # m else (k', v') # map_set k v m)"

text \<open>\<^verbatim>\<open>Map.prototype.get\<close> and \<^verbatim>\<open>has\<close>.\<close>

definition map_get :: "('k \<times> 'v) list \<Rightarrow> 'k \<Rightarrow> 'v option" where
  "map_get m k = map_of m k"

definition map_has :: "('k \<times> 'v) list \<Rightarrow> 'k \<Rightarrow> bool" where
  "map_has m k = (map_of m k \<noteq> None)"

text \<open>
  \<^verbatim>\<open>String.prototype.toLowerCase\<close> on code points below 256: the letters A to Z and the
  accented capitals U+00C0 to U+00DE (without the multiplication sign U+00D7) move up by 32.
\<close>

definition lower_char :: "char \<Rightarrow> char" where
  "lower_char c =
     (let n = (of_char c :: nat)
      in if (65 \<le> n \<and> n \<le> 90) \<or> (192 \<le> n \<and> n \<le> 222 \<and> n \<noteq> 215)
         then char_of (n + 32) else c)"

definition toLowerCase :: "string \<Rightarrow> string" where
  "toLowerCase s = map lower_char s"

subsection \<open>The default binding table\<close>

definition mk_binding ::
  "InputActionType \<Rightarrow> string \<Rightarrow> string option \<Rightarrow> InputContext \<Rightarrow> string \<Rightarrow> bool \<Rightarrow> IInputBinding"
where
  "mk_binding a p s c d r =
     \<lparr>action = a, primary = p, secondary = s, bcontext = c, description = d, rebindable = r\<rparr>"

definition defaultBindings :: "IInputBinding list" where
  "defaultBindings =
   [ mk_binding MOVE_FORWARD ''w'' (Some ''arrowup'') PLAYER ''Move Forward'' True,
     mk_binding MOVE_BACKWARD ''s'' (Some ''arrowdown'') PLAYER ''Move Backward'' True,
     mk_binding MOVE_LEFT ''a'' (Some ''arrowleft'') PLAYER ''Move Left'' True,
     mk_binding MOVE_RIGHT ''d'' (Some ''arrowright'') PLAYER ''Move Right'' True,
     mk_binding JUMP '' '' None PLAYER ''Jump'' True,
     mk_binding SPRINT ''shift'' None PLAYER ''Sprint'' True,
     mk_binding CROUCH ''control'' None PLAYER ''Crouch'' True,
     mk_binding ATTACK_PRIMARY ''mouse0'' None PLAYER ''Attack (Primary)'' True,
     mk_binding ATTACK_SECONDARY ''mouse1'' None PLAYER ''Attack (Secondary)'' True,
     mk_binding RELOAD ''r'' None PLAYER ''Reload'' True,
     mk_binding AIM ''mouse1'' None PLAYER ''Aim'' True,
     mk_binding USE_ABILITY_1 ''q'' None PLAYER ''Use Ability 1'' True,
     mk_binding USE_ABILITY_2 ''e'' None PLAYER ''Use Ability 2'' True,
     mk_binding USE_ABILITY_3 ''f'' None PLAYER ''Use Ability 3'' True,
     mk_binding INTERACT ''e'' None PLAYER ''Interact'' True,
     mk_binding USE_ITEM ''f'' None PLAYER ''Use Item'' True,
     mk_binding MENU_TOGGLE ''escape'' None PLAYER ''Toggle Menu'' False,
     mk_binding INVENTORY_TOGGLE ''i'' None PLAYER ''Toggle Inventory'' True,
     mk_binding MAP_TOGGLE ''m'' None PLAYER ''Toggle Map'' True,
     mk_binding GRAPPLE ''mouse1'' None PLAYER ''Grapple'' True,
     mk_binding RELEASE_GRAPPLE '' '' None PLAYER ''Release Grapple'' True ]"

section \<open>Operations\<close>

subsection \<open>Handler registration\<close>

text \<open>
  \<^verbatim>\<open>Set.prototype.add\<close> keeps one entry per function object, in insertion order;
  \<^verbatim>\<open>delete\<close> removes it.
\<close>

definition set_add :: "handler \<Rightarrow> handler list \<Rightarrow> handler list" where
  "set_add h hs = (if hid h \<in> set (map hid hs) then hs else hs @ [h])"

definition set_delete :: "nat \<Rightarrow> handler list \<Rightarrow> handler list" where
  "set_delete i hs = filter (\<lambda>h. hid h \<noteq> i) hs"

definition registerActionHandler :: "InputActionType \<Rightarrow> handler \<Rightarrow> InputService \<Rightarrow> InputService" where
  "registerActionHandler a h e =
     (let hm = (if \<not> map_has (actionHandlers e) a then map_set a [] (actionHandlers e)
                else actionHandlers e);
          handlers = (case map_get hm a of Some hs \<Rightarrow> hs | None \<Rightarrow> [])
      in e\<lparr>actionHandlers := map_set a (set_add h handlers) hm\<rparr>)"

text \<open>The closure returned by \<^verbatim>\<open>registerActionHandler\<close>, called for handler \<open>i\<close>.\<close>

definition unregister :: "InputActionType \<Rightarrow> nat \<Rightarrow> InputService \<Rightarrow> InputService" where
  "unregister a i e =
     (case map_get (actionHandlers e) a of
        None \<Rightarrow> e
      | Some hs \<Rightarrow> e\<lparr>actionHandlers := map_set a (set_delete i hs) (actionHandlers e)\<rparr>)"

subsection \<open>Context gate\<close>

definition enableContext :: "InputContext \<Rightarrow> InputService \<Rightarrow> InputService" where
  "enableContext c e = e\<lparr>activeContexts := insert c (activeContexts e)\<rparr>"

definition disableContext :: "InputContext \<Rightarrow> InputService \<Rightarrow> InputService" where
  "disableContext c e = e\<lparr>activeContexts := activeContexts e - {c}\<rparr>"

definition isContextEnabled :: "InputContext \<Rightarrow> InputService \<Rightarrow> bool" where
  "isContextEnabled c e = (c \<in> activeContexts e)"

subsection \<open>Binding table\<close>

definition getBinding :: "InputActionType \<Rightarrow> InputService \<Rightarrow> IInputBinding option" where
  "getBinding a e = map_get (bindings e) a"

text \<open>
  \<^verbatim>\<open>rebindAction\<close>. The test \<^verbatim>\<open>if (secondary)\<close> is false for an omitted argument and for
  the empty string. The binding object is mutated in place, so writing it back with
  \<^verbatim>\<open>bindings.set\<close> keeps its position in the table.
\<close>

definition rebindAction ::
  "InputActionType \<Rightarrow> string \<Rightarrow> string option \<Rightarrow> InputService \<Rightarrow> bool \<times> InputService"
where
  "rebindAction a p s e =
     (case map_get (bindings e) a of
        None \<Rightarrow> (False, e)
      | Some binding \<Rightarrow>
          if \<not> rebindable binding then (False, e)
          else
            let binding' = binding\<lparr>primary := toLowerCase p,
                   secondary := (case s of
                                   Some t \<Rightarrow> if t \<noteq> [] then Some (toLowerCase t) else None
                                 | None \<Rightarrow> None)\<rparr>
            in (True, e\<lparr>bindings := map_set a binding' (bindings e)\<rparr>))"

text \<open>\<^verbatim>\<open>resetBindings\<close>: clear the table, then insert a copy of every default.\<close>

definition resetBindings :: "InputService \<Rightarrow> InputService" where
  "resetBindings e = e\<lparr>bindings := fold (\<lambda>b m. map_set (action b) b m) defaultBindings []\<rparr>"

text \<open>
  \<^verbatim>\<open>saveBindings\<close> writes the values of the table, in table order. \<^verbatim>\<open>JSON.stringify\<close>
  followed by \<^verbatim>\<open>JSON.parse\<close> gives back equal bindings (an \<^verbatim>\<open>undefined\<close> secondary
  is dropped and read back as absent), so the stored item is kept as the list itself.
\<close>

definition saveBindings :: "InputService \<Rightarrow> InputService" where
  "saveBindings e = e\<lparr>storage := Some (map snd (bindings e))\<rparr>"

text \<open>
  \<^verbatim>\<open>loadBindings\<close>: a missing item changes nothing; otherwise every stored binding
  whose action is in the table replaces that entry.
\<close>

definition load_step :: "IInputBinding \<Rightarrow> (InputActionType \<times> IInputBinding) list
    \<Rightarrow> (InputActionType \<times> IInputBinding) list" where
  "load_step b m = (if map_has m (action b) then map_set (action b) b m else m)"

definition loadBindings :: "InputService \<Rightarrow> InputService" where
  "loadBindings e =
     (case storage e of
        None \<Rightarrow> e
      | Some bindingsData \<Rightarrow> e\<lparr>bindings := fold load_step bindingsData (bindings e)\<rparr>)"

subsection \<open>Queries\<close>

text \<open>\<^verbatim>\<open>this.axisValues.get(action) || 0\<close>.\<close>

definition getAxisValue :: "InputActionType \<Rightarrow> InputService \<Rightarrow> int" where
  "getAxisValue a e = (case map_get (axisValues e) a of Some v \<Rightarrow> v | None \<Rightarrow> 0)"

definition getVector2Value :: "InputActionType \<Rightarrow> InputActionType \<Rightarrow> InputService \<Rightarrow> int \<times> int" where
  "getVector2Value h v e = (getAxisValue h e, getAxisValue v e)"

definition isActionInState :: "InputActionType \<Rightarrow> InputState \<Rightarrow> InputService \<Rightarrow> bool" where
  "isActionInState a s e = (actionStates e a = Some s)"

subsection \<open>Dispatch\<close>

text \<open>The value \<^verbatim>\<open>notifyActionHandlers\<close> computes before it calls the handlers.\<close>

definition handler_value :: "InputActionType \<Rightarrow> InputService \<Rightarrow> payload option" where
  "handler_value a e =
     (if a = MOVE_FORWARD \<or> a = MOVE_BACKWARD \<or> a = MOVE_LEFT \<or> a = MOVE_RIGHT
      then Some (Num (getAxisValue a e))
      else if a = CAMERA_LOOK then Some (Vec (getAxisValue CAMERA_LOOK e) 0)
      else None)"

text \<open>
  The loop \<^verbatim>\<open>for (const handler of handlers) handler(state, value)\<close>. There is no
  \<^verbatim>\<open>try\<close> around the call: an exception leaves the loop and the function.
\<close>

fun notify_loop ::
  "InputActionType \<Rightarrow> InputState \<Rightarrow> payload option \<Rightarrow> handler list \<Rightarrow> InputService
   \<Rightarrow> unit result \<times> InputService"
where
  "notify_loop a s v [] e = (Inr (), e)"
| "notify_loop a s v (h # hs) e =
     (let e' = e\<lparr>calls := calls e @ [(a, hid h, s, v)]\<rparr>
      in if raises h s v then (Inl (HandlerError (hid h)), e') else notify_loop a s v hs e')"

definition notifyActionHandlers ::
  "InputActionType \<Rightarrow> InputState \<Rightarrow> InputService \<Rightarrow> unit result \<times> InputService" where
  "notifyActionHandlers a s e =
     (case map_get (actionHandlers e) a of
        None \<Rightarrow> (Inr (), e)
      | Some handlers \<Rightarrow> notify_loop a s (handler_value a e) handlers e)"

text \<open>
  \<^verbatim>\<open>processInputChange\<close>: one pass over the entries of the binding table. An exception
  from a handler leaves the pass.
\<close>

fun process_loop ::
  "string \<Rightarrow> bool \<Rightarrow> (InputActionType \<times> IInputBinding) list \<Rightarrow> InputService
   \<Rightarrow> unit result \<times> InputService"
where
  "process_loop key pressed [] e = (Inr (), e)"
| "process_loop key pressed ((actionType, binding) # rest) e =
     (if bcontext binding \<notin> activeContexts e then process_loop key pressed rest e
      else if primary binding = key \<or> secondary binding = Some key then
        (let newState = (if pressed then PRESSED else RELEASED);
             e1 = e\<lparr>actionStates := (actionStates e)(actionType \<mapsto> newState)\<rparr>
         in case notifyActionHandlers actionType newState e1 of
              (Inl err, e2) \<Rightarrow> (Inl err, e2)
            | (Inr u, e2) \<Rightarrow> process_loop key pressed rest e2)
      else process_loop key pressed rest e)"

definition processInputChange :: "string \<Rightarrow> bool \<Rightarrow> InputService \<Rightarrow> unit result \<times> InputService" where
  "processInputChange key pressed e = process_loop key pressed (bindings e) e"

text \<open>
  \<^verbatim>\<open>isKeyForActionPressed\<close>. The secondary control counts only when it is a non-empty
  string (\<^verbatim>\<open>binding.secondary && ...\<close>).
\<close>

definition isKeyForActionPressed :: "InputActionType \<Rightarrow> InputService \<Rightarrow> bool" where
  "isKeyForActionPressed a e =
     (case map_get (bindings e) a of
        None \<Rightarrow> False
      | Some binding \<Rightarrow>
          map_get (keyStates e) (primary binding) = Some True \<or>
          (case secondary binding of
             None \<Rightarrow> False
           | Some s \<Rightarrow> s \<noteq> [] \<and> map_get (keyStates e) s = Some True))"

definition updateAxisValues :: "InputService \<Rightarrow> InputService" where
  "updateAxisValues e =
     (let horizontalValue = (if isKeyForActionPressed MOVE_RIGHT e then 1 else 0)
                            - (if isKeyForActionPressed MOVE_LEFT e then 1 else 0);
          e1 = e\<lparr>axisValues := map_set MOVE_RIGHT horizontalValue (axisValues e)\<rparr>;
          verticalValue = (if isKeyForActionPressed MOVE_FORWARD e1 then 1 else 0)
                          - (if isKeyForActionPressed MOVE_BACKWARD e1 then 1 else 0)
      in e1\<lparr>axisValues := map_set MOVE_FORWARD verticalValue (axisValues e1)\<rparr>)"

subsection \<open>Raw events\<close>

text \<open>
  \<^verbatim>\<open>handleKeyDown\<close> ignores a key that is already tracked as pressed; when a handler
  raises, the statements after \<^verbatim>\<open>processInputChange\<close> are not reached.
\<close>

definition handleKeyDown :: "string \<Rightarrow> InputService \<Rightarrow> unit result \<times> InputService" where
  "handleKeyDown k e =
     (let key = toLowerCase k
      in if map_get (keyStates e) key = Some True then (Inr (), e)
         else case processInputChange key True (e\<lparr>keyStates := map_set key True (keyStates e)\<rparr>) of
                (Inl err, e1) \<Rightarrow> (Inl err, e1)
              | (Inr u, e1) \<Rightarrow> (Inr (), updateAxisValues e1))"

definition handleKeyUp :: "string \<Rightarrow> InputService \<Rightarrow> unit result \<times> InputService" where
  "handleKeyUp k e =
     (let key = toLowerCase k
      in case processInputChange key False (e\<lparr>keyStates := map_set key False (keyStates e)\<rparr>) of
           (Inl err, e1) \<Rightarrow> (Inl err, e1)
         | (Inr u, e1) \<Rightarrow> (Inr (), updateAxisValues e1))"

text \<open>The decimal digits of a mouse button index, for the token \<^verbatim>\<open>mouse${event.button}\<close>.\<close>

function decimal :: "nat \<Rightarrow> string" where
  "decimal n = (if n < 10 then [char_of (48 + n)] else decimal (n div 10) @ [char_of (48 + n mod 10)])"
  by pat_completeness auto
termination
  by (relation "measure id") auto

definition mouse_token :: "nat \<Rightarrow> string" where
  "mouse_token button = ''mouse'' @ decimal button"

definition handleMouseDown :: "nat \<Rightarrow> InputService \<Rightarrow> unit result \<times> InputService" where
  "handleMouseDown button e =
     (let b = mouse_token button
      in processInputChange b True (e\<lparr>keyStates := map_set b True (keyStates e)\<rparr>))"

definition handleMouseUp :: "nat \<Rightarrow> InputService \<Rightarrow> unit result \<times> InputService" where
  "handleMouseUp button e =
     (let b = mouse_token button
      in processInputChange b False (e\<lparr>keyStates := map_set b False (keyStates e)\<rparr>))"

definition handleMouseMove :: "InputService \<Rightarrow> InputService" where
  "handleMouseMove e = e\<lparr>axisValues := map_set CAMERA_LOOK 0 (axisValues e)\<rparr>"

text \<open>
  \<^verbatim>\<open>handleWindowBlur\<close>: the first loop runs over the entries of \<^verbatim>\<open>keyStates\<close>; the body
  rewrites only the entry it is visiting, so the entries seen are those at entry to the
  loop. The second loop sets every stored axis value to 0.
\<close>

fun blur_loop :: "(string \<times> bool) list \<Rightarrow> InputService \<Rightarrow> unit result \<times> InputService" where
  "blur_loop [] e = (Inr (), e)"
| "blur_loop ((key, pressed) # rest) e =
     (if pressed then
        (case processInputChange key False (e\<lparr>keyStates := map_set key False (keyStates e)\<rparr>) of
           (Inl err, e1) \<Rightarrow> (Inl err, e1)
         | (Inr u, e1) \<Rightarrow> blur_loop rest e1)
      else blur_loop rest e)"

definition handleWindowBlur :: "InputService \<Rightarrow> unit result \<times> InputService" where
  "handleWindowBlur e =
     (case blur_loop (keyStates e) e of
        (Inl err, e1) \<Rightarrow> (Inl err, e1)
      | (Inr u, e1) \<Rightarrow> (Inr (), e1\<lparr>axisValues := map (\<lambda>(a, v). (a, 0)) (axisValues e1)\<rparr>))"

subsection \<open>Construction\<close>

text \<open>
  The field initialisers give empty maps and sets. The constructor then resets the
  bindings, loads what the storage holds, enables the player context and installs the
  event listeners (which changes no field). \<open>st\<close> is the stored item found at start-up.
\<close>

definition initial :: "IInputBinding list option \<Rightarrow> InputService" where
  "initial st =
     \<lparr>actionHandlers = [], bindings = [], activeContexts = {}, keyStates = [],
      actionStates = Map.empty, axisValues = [], storage = st, calls = []\<rparr>"

definition constructor :: "IInputBinding list option \<Rightarrow> InputService" where
  "constructor st = enableContext PLAYER (loadBindings (resetBindings (initial st)))"

subsection \<open>Sequences of calls\<close>

text \<open>
  Everything that can happen to a service object after construction: the state-changing
  methods of \<^verbatim>\<open>IInputService\<close>, the unsubscribe closure, the six DOM events, and a
  change of the stored item by someone else. An exception raised by a handler ends the
  event listener; the object stays as the listener left it.
\<close>

datatype interaction =
    Register InputActionType handler
  | Unregister InputActionType nat
  | EnableContext InputContext
  | DisableContext InputContext
  | RebindAction InputActionType string "string option"
  | ResetBindings
  | SaveBindings
  | LoadBindings
  | KeyDown string
  | KeyUp string
  | MouseDown nat
  | MouseUp nat
  | MouseMove
  | WindowBlur
  | StorageChanged "IInputBinding list option"

fun perform :: "interaction \<Rightarrow> InputService \<Rightarrow> InputService" where
  "perform (Register a h) e = registerActionHandler a h e"
| "perform (Unregister a i) e = unregister a i e"
| "perform (EnableContext c) e = enableContext c e"
| "perform (DisableContext c) e = disableContext c e"
| "perform (RebindAction a p s) e = snd (rebindAction a p s e)"
| "perform ResetBindings e = resetBindings e"
| "perform SaveBindings e = saveBindings e"
| "perform LoadBindings e = loadBindings e"
| "perform (KeyDown k) e = snd (handleKeyDown k e)"
| "perform (KeyUp k) e = snd (handleKeyUp k e)"
| "perform (MouseDown b) e = snd (handleMouseDown b e)"
| "perform (MouseUp b) e = snd (handleMouseUp b e)"
| "perform MouseMove e = handleMouseMove e"
| "perform WindowBlur e = snd (handleWindowBlur e)"
| "perform (StorageChanged st) e = e\<lparr>storage := st\<rparr>"

text \<open>Whether the call returned or an exception left it.\<close>

fun outcome :: "interaction \<Rightarrow> InputService \<Rightarrow> unit result" where
  "outcome (KeyDown k) e = fst (handleKeyDown k e)"
| "outcome (KeyUp k) e = fst (handleKeyUp k e)"
| "outcome (MouseDown b) e = fst (handleMouseDown b e)"
| "outcome (MouseUp b) e = fst (handleMouseUp b e)"
| "outcome WindowBlur e = fst (handleWindowBlur e)"
| "outcome i e = Inr ()"

definition run :: "interaction list \<Rightarrow> InputService \<Rightarrow> InputService" where
  "run is e = fold perform is e"

section \<open>Vocabulary of the properties\<close>

text \<open>The state a raw transition gives to the actions it reaches.\<close>

definition newState :: "bool \<Rightarrow> InputState" where
  "newState pressed = (if pressed then PRESSED else RELEASED)"

text \<open>
  A binding is reached by a transition of control \<open>key\<close> when its context is enabled and
  \<open>key\<close> is its primary or its secondary control.
\<close>

definition hit :: "string \<Rightarrow> InputContext set \<Rightarrow> IInputBinding \<Rightarrow> bool" where
  "hit key ctxs b \<longleftrightarrow> bcontext b \<in> ctxs \<and> (primary b = key \<or> secondary b = Some key)"

definition matching :: "string \<Rightarrow> InputContext set \<Rightarrow> (InputActionType \<times> IInputBinding) list
   \<Rightarrow> (InputActionType \<times> IInputBinding) list" where
  "matching key ctxs bs = filter (\<lambda>ab. hit key ctxs (snd ab)) bs"

text \<open>The fields a dispatch pass never writes.\<close>

definition same_frame :: "InputService \<Rightarrow> InputService \<Rightarrow> bool" where
  "same_frame e e' \<longleftrightarrow>
     actionHandlers e' = actionHandlers e \<and> bindings e' = bindings e \<and>
     activeContexts e' = activeContexts e \<and> keyStates e' = keyStates e \<and>
     axisValues e' = axisValues e \<and> storage e' = storage e"

text \<open>No registered handler raises, whatever it is called with.\<close>

definition quiet :: "InputService \<Rightarrow> bool" where
  "quiet e \<longleftrightarrow>
     (\<forall>ahs \<in> set (actionHandlers e). \<forall>h \<in> set (snd ahs). \<forall>s v. \<not> raises h s v)"

text \<open>The invocations of one complete notification of action \<open>a\<close> with state \<open>s\<close>.\<close>

definition notified :: "InputActionType \<Rightarrow> InputState \<Rightarrow> InputService \<Rightarrow> invocation list" where
  "notified a s e =
     (case map_get (actionHandlers e) a of
        None \<Rightarrow> []
      | Some hs \<Rightarrow> map (\<lambda>h. (a, hid h, s, handler_value a e)) hs)"

text \<open>The action states after a complete pass for control \<open>key\<close>.\<close>

definition set_states ::
  "string \<Rightarrow> bool \<Rightarrow> InputService \<Rightarrow> (InputActionType \<rightharpoonup> InputState) \<Rightarrow> (InputActionType \<rightharpoonup> InputState)"
where
  "set_states key p e m =
     fold (\<lambda>ab m. m(fst ab \<mapsto> newState p)) (matching key (activeContexts e) (bindings e)) m"

text \<open>The invocations of a complete pass for control \<open>key\<close>.\<close>

definition dispatched :: "string \<Rightarrow> bool \<Rightarrow> InputService \<Rightarrow> invocation list" where
  "dispatched key p e =
     concat (map (\<lambda>ab. notified (fst ab) (newState p) e)
               (matching key (activeContexts e) (bindings e)))"

text \<open>The invocations made since an earlier state \<open>e\<close>.\<close>

definition new_calls :: "InputService \<Rightarrow> InputService \<Rightarrow> invocation list" where
  "new_calls e e' = drop (length (calls e)) (calls e')"

text \<open>
  An action's controls are pressed when the tracker reports its primary or its secondary
  control as pressed.
\<close>

definition controls_pressed :: "InputActionType \<Rightarrow> InputService \<Rightarrow> bool" where
  "controls_pressed a e =
     (case getBinding a e of
        None \<Rightarrow> False
      | Some b \<Rightarrow>
          map_get (keyStates e) (primary b) = Some True \<or>
          (case secondary b of None \<Rightarrow> False | Some s \<Rightarrow> map_get (keyStates e) s = Some True))"

text \<open>The axis of an opposing pair as the specification words it.\<close>

definition axisFor :: "InputActionType \<Rightarrow> InputActionType \<Rightarrow> InputService \<Rightarrow> int" where
  "axisFor positiveAction negativeAction e =
     (if controls_pressed positiveAction e \<and> \<not> controls_pressed negativeAction e then 1
      else if controls_pressed negativeAction e \<and> \<not> controls_pressed positiveAction e then - 1
      else 0)"

text \<open>
  The stored axis values agree with the tracker: the horizontal axis is read under
  \<open>MOVE_RIGHT\<close>, the vertical one under \<open>MOVE_FORWARD\<close>.
\<close>

definition axes_in_sync :: "InputService \<Rightarrow> bool" where
  "axes_in_sync e \<longleftrightarrow>
     getAxisValue MOVE_RIGHT e = axisFor MOVE_RIGHT MOVE_LEFT e \<and>
     getAxisValue MOVE_FORWARD e = axisFor MOVE_FORWARD MOVE_BACKWARD e"

text \<open>No binding of a movement action has the empty string as its secondary control.\<close>

definition movement_tokens :: "InputService \<Rightarrow> bool" where
  "movement_tokens e \<longleftrightarrow>
     list_all (\<lambda>a. case getBinding a e of None \<Rightarrow> True | Some b \<Rightarrow> secondary b \<noteq> Some [])
       [MOVE_RIGHT, MOVE_LEFT, MOVE_FORWARD, MOVE_BACKWARD]"

fun is_key_event :: "interaction \<Rightarrow> bool" where
  "is_key_event (KeyDown k) = True"
| "is_key_event (KeyUp k) = True"
| "is_key_event i = False"

fun is_context_call :: "interaction \<Rightarrow> bool" where
  "is_context_call (EnableContext c) = True"
| "is_context_call (DisableContext c) = True"
| "is_context_call i = False"

text \<open>
  A raw transition of control \<open>k\<close> to pressed (\<open>p\<close>) or released: a key-down of a key
  that is not tracked as pressed (a key-down of a tracked key is a repeat and is ignored),
  a key-up, a mouse-down or a mouse-up, of the key or button with that token.
\<close>

fun transition :: "interaction \<Rightarrow> string \<Rightarrow> bool \<Rightarrow> InputService \<Rightarrow> bool" where
  "transition (KeyDown key) k p e =
     (toLowerCase key = k \<and> p \<and> map_get (keyStates e) k \<noteq> Some True)"
| "transition (KeyUp key) k p e = (toLowerCase key = k \<and> \<not> p)"
| "transition (MouseDown button) k p e = (mouse_token button = k \<and> p)"
| "transition (MouseUp button) k p e = (mouse_token button = k \<and> \<not> p)"
| "transition i k p e = False"

fun is_press :: "interaction \<Rightarrow> bool" where
  "is_press (KeyDown key) = True"
| "is_press (MouseDown button) = True"
| "is_press i = False"

text \<open>The only actions under which an axis value is ever stored.\<close>

definition axis_keys :: "InputActionType set" where
  "axis_keys = {MOVE_RIGHT, MOVE_FORWARD, CAMERA_LOOK}"

text \<open>The fields neither a dispatch pass nor the write to the tracker before it touches.\<close>

definition same_tables :: "InputService \<Rightarrow> InputService \<Rightarrow> bool" where
  "same_tables e e' \<longleftrightarrow>
     actionHandlers e' = actionHandlers e \<and> bindings e' = bindings e \<and>
     activeContexts e' = activeContexts e \<and> axisValues e' = axisValues e \<and>
     storage e' = storage e"

text \<open>
  What every raw event keeps: handlers, bindings, context gate and storage; axis values
  appear only under the two movement keys; the calls it adds carry the value computed
  from the axis values at its start.
\<close>

definition event_step :: "InputService \<Rightarrow> InputService \<Rightarrow> bool" where
  "event_step e e' \<longleftrightarrow>
     actionHandlers e' = actionHandlers e \<and> bindings e' = bindings e \<and>
     activeContexts e' = activeContexts e \<and> storage e' = storage e \<and>
     fst ` set (axisValues e') \<subseteq> {MOVE_RIGHT, MOVE_FORWARD} \<union> fst ` set (axisValues e) \<and>
     (\<exists>cs. calls e' = calls e @ cs \<and>
        (\<forall>c \<in> set cs. snd (snd (snd c)) = handler_value (fst c) e))"

fun is_raw_event :: "interaction \<Rightarrow> bool" where
  "is_raw_event (KeyDown k) = True"
| "is_raw_event (KeyUp k) = True"
| "is_raw_event (MouseDown b) = True"
| "is_raw_event (MouseUp b) = True"
| "is_raw_event WindowBlur = True"
| "is_raw_event i = False"

text \<open>
  Axis values are stored under the three axis keys only, and every call made for one of
  the two negative-direction movement actions carried the number 0.
\<close>

definition axis_inv :: "InputService \<Rightarrow> bool" where
  "axis_inv e \<longleftrightarrow>
     fst ` set (axisValues e) \<subseteq> axis_keys \<and>
     (\<forall>c \<in> set (calls e). fst c = MOVE_LEFT \<or> fst c = MOVE_BACKWARD
         \<longrightarrow> snd (snd (snd c)) = Some (Num 0))"

text \<open>Two sample callbacks: one that always returns, one that always raises.\<close>

definition ok_handler :: "nat \<Rightarrow> handler" where
  "ok_handler i = \<lparr>hid = i, raises = (\<lambda>s v. False)\<rparr>"

definition bad_handler :: "nat \<Rightarrow> handler" where
  "bad_handler i = \<lparr>hid = i, raises = (\<lambda>s v. True)\<rparr>"

text \<open>A sequence of \<^verbatim>\<open>rebindAction\<close> calls, successful or refused.\<close>

definition apply_rebinds ::
  "(InputActionType \<times> string \<times> string option) list \<Rightarrow> InputService \<Rightarrow> InputService" where
  "apply_rebinds cs e = fold (\<lambda>(a, p, s) e. snd (rebindAction a p s e)) cs e"

text \<open>
  The table has the keys of the default table, in its order, and every entry sits under
  the action it names.
\<close>

definition keyed_by_action :: "(InputActionType \<times> IInputBinding) list \<Rightarrow> bool" where
  "keyed_by_action t \<longleftrightarrow>
     map fst t = map action defaultBindings \<and> list_all (\<lambda>ab. action (snd ab) = fst ab) t"

text \<open>The controls the tracker holds as pressed, in the order of its entries.\<close>

definition pressed_keys :: "(string \<times> bool) list \<Rightarrow> string list" where
  "pressed_keys ks = map fst (filter snd ks)"

text \<open>A callback that raises when it is told of a release, and returns otherwise.\<close>

definition release_averse :: "nat \<Rightarrow> handler" where
  "release_averse i = \<lparr>hid = i, raises = (\<lambda>s v. s = RELEASED)\<rparr>"

text \<open>
  The state in which the handlers of a raw transition run: every event handler writes
  the tracker first and dispatches afterwards.
\<close>

definition tracked :: "string \<Rightarrow> bool \<Rightarrow> InputService \<Rightarrow> InputService" where
  "tracked key pressed e = e\<lparr>keyStates := map_set key pressed (keyStates e)\<rparr>"

text \<open>
  Sample states, each reached from construction with nothing stored. \<open>scene_gated\<close>: a
  handler for \<open>MOVE_FORWARD\<close>, then the player context disabled. \<open>scene_starved\<close>: a
  raising handler for the first of the three actions bound to \<open>mouse1\<close>, a returning one
  for each of the other two. \<open>scene_held\<close>: three handlers, the one for \<open>JUMP\<close> raising
  on release, then three controls pressed. \<open>scene_axes\<close>: returning handlers for the
  horizontal pair; \<open>both_then_neither\<close> presses left, presses right, releases left,
  releases right. \<open>scene_axis_raising\<close>: a handler for \<open>MOVE_RIGHT\<close> that raises on
  release. \<open>scene_raising\<close>: a raising handler and a second handler for \<open>JUMP\<close>, and a
  handler for \<open>RELEASE_GRAPPLE\<close>, which shares the space key with \<open>JUMP\<close>.
\<close>

definition scene_gated :: InputService where
  "scene_gated =
     run [Register MOVE_FORWARD (ok_handler 1), DisableContext PLAYER] (constructor None)"

definition scene_starved :: InputService where
  "scene_starved =
     run [Register ATTACK_SECONDARY (bad_handler 1), Register AIM (ok_handler 2),
          Register GRAPPLE (ok_handler 3)] (constructor None)"

definition scene_held :: InputService where
  "scene_held =
     run [Register MOVE_FORWARD (ok_handler 1), Register JUMP (release_averse 2),
          Register AIM (ok_handler 3), KeyDown ''w'', KeyDown '' '', MouseDown 1]
       (constructor None)"

definition scene_axes :: InputService where
  "scene_axes =
     run [Register MOVE_LEFT (ok_handler 1), Register MOVE_RIGHT (ok_handler 2)]
       (constructor None)"

definition both_then_neither :: "interaction list" where
  "both_then_neither = [KeyDown ''a'', KeyDown ''d'', KeyUp ''a'', KeyUp ''d'']"

definition scene_axis_raising :: InputService where
  "scene_axis_raising = run [Register MOVE_RIGHT (release_averse 2)] (constructor None)"

definition scene_raising :: InputService where
  "scene_raising =
     run [Register JUMP (bad_handler 1), Register JUMP (ok_handler 2),
          Register RELEASE_GRAPPLE (ok_handler 3)] (constructor None)"

section \<open>Properties\<close>

subsection \<open>Association lists\<close>

lemma map_of_map_set: "map_of (map_set k v m) = (map_of m)(k \<mapsto> v)"
  by (induction m) auto

lemma map_get_map_set: "map_get (map_set k v m) k' = (if k' = k then Some v else map_get m k')"
  by (simp add: map_get_def map_of_map_set)

lemma keys_map_set_present: "k \<in> fst ` set m \<Longrightarrow> map fst (map_set k v m) = map fst m"
  by (induction m) (auto simp: rev_image_eqI)

lemma keys_map_set: "fst ` set (map_set k v m) = insert k (fst ` set m)"
proof -
  have "dom (map_of (map_set k v m)) = insert k (dom (map_of m))"
    by (simp add: map_of_map_set)
  then show ?thesis
    by (simp only: dom_map_of_conv_image_fst)
qed

lemma map_set_append_fresh:
  "k \<notin> fst ` set p \<Longrightarrow> map_set k v (p @ (k, w) # m) = p @ (k, v) # m"
  by (induction p) auto

lemma map_get_Some_key: "map_get m k = Some v \<Longrightarrow> k \<in> fst ` set m"
  unfolding map_get_def by (metis fst_conv image_eqI map_of_SomeD)

subsection \<open>What a dispatch pass leaves alone\<close>

lemma same_frame_refl: "same_frame e e"
  by (simp add: same_frame_def)

lemma handler_value_frame:
  "axisValues e' = axisValues e \<Longrightarrow> handler_value a e' = handler_value a e"
  by (simp add: handler_value_def getAxisValue_def)

lemma notify_loop_frame:
  "same_frame e (snd (notify_loop a s v hs e)) \<and>
   actionStates (snd (notify_loop a s v hs e)) = actionStates e \<and>
   (\<exists>cs. calls (snd (notify_loop a s v hs e)) = calls e @ cs \<and>
         (\<forall>c\<in>set cs. fst c = a \<and> fst (snd (snd c)) = s \<and> snd (snd (snd c)) = v))"
proof (induction hs arbitrary: e)
  case Nil
  show ?case by (simp add: same_frame_def)
next
  case (Cons h hs)
  let ?e' = "e\<lparr>calls := calls e @ [(a, hid h, s, v)]\<rparr>"
  show ?case
  proof (cases "raises h s v")
    case True
    then show ?thesis by (simp add: same_frame_def)
  next
    case False
    from Cons.IH [of ?e'] obtain cs where
      f: "same_frame ?e' (snd (notify_loop a s v hs ?e'))"
      and st: "actionStates (snd (notify_loop a s v hs ?e')) = actionStates ?e'"
      and c: "calls (snd (notify_loop a s v hs ?e')) = calls ?e' @ cs"
      and v: "\<forall>c\<in>set cs. fst c = a \<and> fst (snd (snd c)) = s \<and> snd (snd (snd c)) = v"
      by blast
    have "calls (snd (notify_loop a s v (h # hs) e)) = calls e @ ((a, hid h, s, v) # cs)"
      using False c by simp
    moreover have "\<forall>c\<in>set ((a, hid h, s, v) # cs).
        fst c = a \<and> fst (snd (snd c)) = s \<and> snd (snd (snd c)) = v"
      using v by simp
    moreover have "same_frame e (snd (notify_loop a s v (h # hs) e))"
      using False f by (simp add: same_frame_def)
    moreover have "actionStates (snd (notify_loop a s v (h # hs) e)) = actionStates e"
      using False st by simp
    ultimately show ?thesis by blast
  qed
qed

lemma notifyActionHandlers_frame:
  "same_frame e (snd (notifyActionHandlers a s e)) \<and>
   actionStates (snd (notifyActionHandlers a s e)) = actionStates e \<and>
   (\<exists>cs. calls (snd (notifyActionHandlers a s e)) = calls e @ cs \<and>
         (\<forall>c\<in>set cs. fst c = a \<and> fst (snd (snd c)) = s \<and>
            snd (snd (snd c)) = handler_value a e))"
proof (cases "map_get (actionHandlers e) a")
  case None
  then show ?thesis by (simp add: notifyActionHandlers_def same_frame_def)
next
  case (Some hs)
  then show ?thesis
    using notify_loop_frame [of e a s "handler_value a e" hs]
    by (simp add: notifyActionHandlers_def)
qed

lemma notify_after_set_frame:
  assumes "notifyActionHandlers a s (e\<lparr>actionStates := (actionStates e)(a \<mapsto> s)\<rparr>) = (r, e2)"
  shows "same_frame e e2"
    and "actionStates e2 = (actionStates e)(a \<mapsto> s)"
    and "\<exists>cs. calls e2 = calls e @ cs \<and>
           (\<forall>c\<in>set cs. fst c = a \<and> fst (snd (snd c)) = s \<and>
              snd (snd (snd c)) = handler_value a e)"
proof -
  let ?e1 = "e\<lparr>actionStates := (actionStates e)(a \<mapsto> s)\<rparr>"
  have e2: "snd (notifyActionHandlers a s ?e1) = e2" using assms by simp
  have hv: "handler_value a ?e1 = handler_value a e" by (rule handler_value_frame) simp
  have f: "same_frame ?e1 e2 \<and> actionStates e2 = actionStates ?e1 \<and>
     (\<exists>cs. calls e2 = calls ?e1 @ cs \<and>
         (\<forall>c\<in>set cs. fst c = a \<and> fst (snd (snd c)) = s \<and>
            snd (snd (snd c)) = handler_value a ?e1))"
    using notifyActionHandlers_frame [of ?e1 a s] by (simp only: e2)
  from f show "same_frame e e2" by (simp add: same_frame_def)
  from f show "actionStates e2 = (actionStates e)(a \<mapsto> s)" by simp
  from f show "\<exists>cs. calls e2 = calls e @ cs \<and>
           (\<forall>c\<in>set cs. fst c = a \<and> fst (snd (snd c)) = s \<and>
              snd (snd (snd c)) = handler_value a e)"
    by (simp add: hv)
qed

lemma matching_Cons:
  "matching key ctxs ((a, b) # bs) =
     (if hit key ctxs b then (a, b) # matching key ctxs bs else matching key ctxs bs)"
  by (simp add: matching_def)

lemma matching_Nil: "matching key ctxs [] = []"
  by (simp add: matching_def)

lemma process_loop_Nil: "process_loop key p [] e = (Inr (), e)"
  by simp

lemma process_loop_skip:
  "\<not> hit key (activeContexts e) b \<Longrightarrow>
   process_loop key p ((a, b) # bs) e = process_loop key p bs e"
  by (auto simp: hit_def)

lemma process_loop_hit:
  "hit key (activeContexts e) b \<Longrightarrow>
   process_loop key p ((a, b) # bs) e =
     (case notifyActionHandlers a (newState p)
             (e\<lparr>actionStates := (actionStates e)(a \<mapsto> newState p)\<rparr>) of
        (Inl err, e2) \<Rightarrow> (Inl err, e2)
      | (Inr u, e2) \<Rightarrow> process_loop key p bs e2)"
  by (simp add: hit_def newState_def Let_def)

declare process_loop.simps [simp del]

lemma pair_list_induct [case_names Nil Cons]:
  assumes "P []" and "\<And>a b xs. P xs \<Longrightarrow> P ((a, b) # xs)"
  shows "P xs"
  using assms by (induction xs) auto

text \<open>The three ways one step of the pass over the binding table can go.\<close>

lemma process_loop_cases:
  obtains
    (skip) "\<not> hit key (activeContexts e) b"
      "process_loop key p ((a, b) # bs) e = process_loop key p bs e"
  | (raise) err e2 where "hit key (activeContexts e) b"
      "notifyActionHandlers a (newState p)
         (e\<lparr>actionStates := (actionStates e)(a \<mapsto> newState p)\<rparr>) = (Inl err, e2)"
      "process_loop key p ((a, b) # bs) e = (Inl err, e2)"
  | (ok) e2 where "hit key (activeContexts e) b"
      "notifyActionHandlers a (newState p)
         (e\<lparr>actionStates := (actionStates e)(a \<mapsto> newState p)\<rparr>) = (Inr (), e2)"
      "process_loop key p ((a, b) # bs) e = process_loop key p bs e2"
proof (cases "hit key (activeContexts e) b")
  case False
  show ?thesis by (rule skip [OF False process_loop_skip [OF False]])
next
  case True
  obtain r e2 where n: "notifyActionHandlers a (newState p)
         (e\<lparr>actionStates := (actionStates e)(a \<mapsto> newState p)\<rparr>) = (r, e2)"
    by (rule prod.exhaust)
  show ?thesis
  proof (cases r)
    case (Inl err)
    have "process_loop key p ((a, b) # bs) e = (Inl err, e2)"
      by (simp only: process_loop_hit [OF True] n Inl prod.case sum.case)
    then show ?thesis by (rule raise [OF True n [unfolded Inl]])
  next
    case (Inr u)
    have u: "r = Inr ()" using Inr by simp
    have "process_loop key p ((a, b) # bs) e = process_loop key p bs e2"
      by (simp only: process_loop_hit [OF True] n u prod.case sum.case)
    then show ?thesis by (rule ok [OF True n [unfolded u]])
  qed
qed

lemma process_loop_same_frame: "same_frame e (snd (process_loop key p bs e))"
proof (induction bs arbitrary: e rule: pair_list_induct)
  case Nil
  show ?case by (simp add: same_frame_refl process_loop_Nil)
next
  case (Cons a b bs)
  show ?case
  proof (cases rule: process_loop_cases [of key e b p a bs])
    case skip
    then show ?thesis using Cons.IH by simp
  next
    case (raise err e2)
    then show ?thesis using notify_after_set_frame(1) [OF raise(2)] by simp
  next
    case (ok e2)
    then show ?thesis
      using notify_after_set_frame(1) [OF ok(2)] Cons.IH [of e2]
      by (simp add: same_frame_def)
  qed
qed

lemma process_loop_states:
  "a \<notin> fst ` set (matching key (activeContexts e) bs) \<Longrightarrow>
   actionStates (snd (process_loop key p bs e)) a = actionStates e a"
proof (induction bs arbitrary: e rule: pair_list_induct)
  case Nil
  show ?case by (simp add: process_loop_Nil)
next
  case (Cons x b bs)
  show ?case
  proof (cases rule: process_loop_cases [of key e b p x bs])
    case skip
    then show ?thesis using Cons by (simp add: matching_Cons)
  next
    case (raise err e2)
    from raise(1) Cons.prems have "a \<noteq> x" by (simp add: matching_Cons)
    then show ?thesis using raise notify_after_set_frame(2) [OF raise(2)] by simp
  next
    case (ok e2)
    from ok(1) Cons.prems have ne: "a \<noteq> x"
      and nm: "a \<notin> fst ` set (matching key (activeContexts e) bs)"
      by (simp_all add: matching_Cons)
    have "activeContexts e2 = activeContexts e"
      using notify_after_set_frame(1) [OF ok(2)] by (simp add: same_frame_def)
    with nm Cons.IH [of e2]
    have "actionStates (snd (process_loop key p bs e2)) a = actionStates e2 a"
      by simp
    then show ?thesis using ok ne notify_after_set_frame(2) [OF ok(2)] by simp
  qed
qed

lemma process_loop_calls:
  "\<exists>cs. calls (snd (process_loop key p bs e)) = calls e @ cs \<and>
     (\<forall>c\<in>set cs. fst c \<in> fst ` set (matching key (activeContexts e) bs) \<and>
        fst (snd (snd c)) = newState p \<and> snd (snd (snd c)) = handler_value (fst c) e)"
proof (induction bs arbitrary: e rule: pair_list_induct)
  case Nil
  show ?case by (simp add: process_loop_Nil)
next
  case (Cons x b bs)
  show ?case
  proof (cases rule: process_loop_cases [of key e b p x bs])
    case skip
    then show ?thesis using Cons.IH [of e] by (simp add: matching_Cons)
  next
    case (raise err e2)
    from notify_after_set_frame(3) [OF raise(2)] raise(1,3)
    show ?thesis by (auto simp: matching_Cons)
  next
    case (ok e2)
    from notify_after_set_frame(3) [OF ok(2)] obtain cs1 where
      c1: "calls e2 = calls e @ cs1"
      and v1: "\<forall>c\<in>set cs1. fst c = x \<and> fst (snd (snd c)) = newState p \<and>
                 snd (snd (snd c)) = handler_value x e"
      by blast
    have fr: "activeContexts e2 = activeContexts e" "axisValues e2 = axisValues e"
      using notify_after_set_frame(1) [OF ok(2)] by (simp_all add: same_frame_def)
    from Cons.IH [of e2] obtain cs2 where
      c2: "calls (snd (process_loop key p bs e2)) = calls e2 @ cs2"
      and v2: "\<forall>c\<in>set cs2. fst c \<in> fst ` set (matching key (activeContexts e) bs) \<and>
        fst (snd (snd c)) = newState p \<and> snd (snd (snd c)) = handler_value (fst c) e"
      using fr(1) handler_value_frame [OF fr(2)] by auto
    have "calls (snd (process_loop key p ((x, b) # bs) e)) = calls e @ (cs1 @ cs2)"
      using ok(3) c1 c2 by simp
    moreover have "\<forall>c\<in>set (cs1 @ cs2).
        fst c \<in> fst ` set (matching key (activeContexts e) ((x, b) # bs)) \<and>
        fst (snd (snd c)) = newState p \<and> snd (snd (snd c)) = handler_value (fst c) e"
      using v1 v2 ok(1) by (auto simp: matching_Cons)
    ultimately show ?thesis by blast
  qed
qed

subsection \<open>What a raw event leaves alone\<close>

lemma processInputChange_frame:
  "same_frame e (snd (processInputChange key p e))"
  "a \<notin> fst ` set (matching key (activeContexts e) (bindings e)) \<Longrightarrow>
     actionStates (snd (processInputChange key p e)) a = actionStates e a"
  "\<exists>cs. calls (snd (processInputChange key p e)) = calls e @ cs \<and>
     (\<forall>c\<in>set cs. fst c \<in> fst ` set (matching key (activeContexts e) (bindings e)) \<and>
        fst (snd (snd c)) = newState p \<and> snd (snd (snd c)) = handler_value (fst c) e)"
  unfolding processInputChange_def
  by (rule process_loop_same_frame, rule process_loop_states, assumption, rule process_loop_calls)

text \<open>A pass after the tracker was written: the tracker keeps the new entry.\<close>

lemma process_after_key_frame:
  fixes e :: InputService and key :: string and v p :: bool
  defines "e1 \<equiv> e\<lparr>keyStates := map_set key v (keyStates e)\<rparr>"
  defines "e' \<equiv> snd (processInputChange key p e1)"
  shows "same_tables e e'"
    and "keyStates e' = map_set key v (keyStates e)"
    and "a \<notin> fst ` set (matching key (activeContexts e) (bindings e)) \<Longrightarrow>
           actionStates e' a = actionStates e a"
    and "\<exists>cs. calls e' = calls e @ cs \<and>
     (\<forall>c\<in>set cs. fst c \<in> fst ` set (matching key (activeContexts e) (bindings e)) \<and>
        fst (snd (snd c)) = newState p \<and> snd (snd (snd c)) = handler_value (fst c) e)"
proof -
  have hv: "\<And>x. handler_value x e1 = handler_value x e"
    by (rule handler_value_frame) (simp add: e1_def)
  have f: "same_frame e1 e'"
    unfolding e'_def by (rule processInputChange_frame(1))
  then show "same_tables e e'" "keyStates e' = map_set key v (keyStates e)"
    by (simp_all add: same_frame_def same_tables_def e1_def)
  show "a \<notin> fst ` set (matching key (activeContexts e) (bindings e)) \<Longrightarrow>
           actionStates e' a = actionStates e a"
    using processInputChange_frame(2) [of a key e1 p] by (simp add: e'_def e1_def)
  show "\<exists>cs. calls e' = calls e @ cs \<and>
     (\<forall>c\<in>set cs. fst c \<in> fst ` set (matching key (activeContexts e) (bindings e)) \<and>
        fst (snd (snd c)) = newState p \<and> snd (snd (snd c)) = handler_value (fst c) e)"
    using processInputChange_frame(3) [of key p e1] unfolding hv e'_def
    by (simp add: e1_def)
qed

lemma updateAxisValues_frame:
  "actionHandlers (updateAxisValues e) = actionHandlers e"
  "bindings (updateAxisValues e) = bindings e"
  "activeContexts (updateAxisValues e) = activeContexts e"
  "keyStates (updateAxisValues e) = keyStates e"
  "actionStates (updateAxisValues e) = actionStates e"
  "storage (updateAxisValues e) = storage e"
  "calls (updateAxisValues e) = calls e"
  "fst ` set (axisValues (updateAxisValues e)) = {MOVE_RIGHT, MOVE_FORWARD} \<union> fst ` set (axisValues e)"
  by (auto simp: updateAxisValues_def Let_def keys_map_set)

lemma blur_loop_Nil: "blur_loop [] e = (Inr (), e)"
  by simp

lemma blur_loop_idle: "blur_loop ((key, False) # ks) e = blur_loop ks e"
  by simp

lemma blur_loop_pressed:
  "blur_loop ((key, True) # ks) e =
     (case processInputChange key False (e\<lparr>keyStates := map_set key False (keyStates e)\<rparr>) of
        (Inl err, e1) \<Rightarrow> (Inl err, e1)
      | (Inr u, e1) \<Rightarrow> blur_loop ks e1)"
  by simp

declare blur_loop.simps [simp del]

text \<open>The three ways one step of the loop over the tracked controls can go.\<close>

lemma blur_loop_cases:
  obtains
    (idle) "\<not> pressed" "blur_loop ((key, pressed) # ks) e = blur_loop ks e"
  | (raise) err where "pressed"
      "fst (processInputChange key False (e\<lparr>keyStates := map_set key False (keyStates e)\<rparr>))
         = Inl err"
      "blur_loop ((key, pressed) # ks) e =
         (Inl err, snd (processInputChange key False
                          (e\<lparr>keyStates := map_set key False (keyStates e)\<rparr>)))"
  | (ok) "pressed"
      "fst (processInputChange key False (e\<lparr>keyStates := map_set key False (keyStates e)\<rparr>))
         = Inr ()"
      "blur_loop ((key, pressed) # ks) e =
         blur_loop ks (snd (processInputChange key False
                          (e\<lparr>keyStates := map_set key False (keyStates e)\<rparr>)))"
proof (cases pressed)
  case False
  then have "blur_loop ((key, pressed) # ks) e = blur_loop ks e"
    by (simp only: blur_loop_idle)
  with False show ?thesis by (rule idle)
next
  case True
  let ?r = "processInputChange key False (e\<lparr>keyStates := map_set key False (keyStates e)\<rparr>)"
  obtain r e1 where n: "?r = (r, e1)" by (rule prod.exhaust)
  show ?thesis
  proof (cases r)
    case (Inl err)
    have "blur_loop ((key, pressed) # ks) e = (Inl err, snd ?r)"
      by (simp only: True blur_loop_pressed n Inl prod.case sum.case snd_conv)
    moreover have "fst ?r = Inl err" by (simp only: n Inl fst_conv)
    ultimately show ?thesis using True raise by blast
  next
    case (Inr u)
    have "blur_loop ((key, pressed) # ks) e = blur_loop ks (snd ?r)"
      by (simp only: True blur_loop_pressed n Inr prod.case sum.case snd_conv)
    moreover have "fst ?r = Inr ()" by (simp add: n Inr)
    ultimately show ?thesis using True ok by blast
  qed
qed

lemma same_tables_trans: "same_tables e e1 \<Longrightarrow> same_tables e1 e2 \<Longrightarrow> same_tables e e2"
  by (simp add: same_tables_def)

lemma blur_loop_frame:
  "same_tables e (snd (blur_loop ks e)) \<and>
   (\<exists>cs. calls (snd (blur_loop ks e)) = calls e @ cs \<and>
      (\<forall>c\<in>set cs. fst (snd (snd c)) = RELEASED \<and>
         snd (snd (snd c)) = handler_value (fst c) e))"
proof (induction ks arbitrary: e rule: pair_list_induct)
  case Nil
  show ?case by (simp add: blur_loop_Nil same_tables_def)
next
  case (Cons key pressed ks)
  let ?e' = "snd (processInputChange key False (e\<lparr>keyStates := map_set key False (keyStates e)\<rparr>))"
  have t: "same_tables e ?e'" by (rule process_after_key_frame(1))
  from process_after_key_frame(4) [where e = e and key = key and v = False and p = False] obtain cs1 where
    c1: "calls ?e' = calls e @ cs1"
    and v1: "\<forall>c\<in>set cs1. fst (snd (snd c)) = RELEASED \<and>
               snd (snd (snd c)) = handler_value (fst c) e"
    by (auto simp: newState_def)
  show ?case
  proof (cases rule: blur_loop_cases [of pressed key ks e])
    case idle
    then show ?thesis using Cons.IH [of e] by simp
  next
    case (raise err)
    then show ?thesis using t c1 v1 by auto
  next
    case ok
    have hv: "\<And>x. handler_value x ?e' = handler_value x e"
      by (rule handler_value_frame) (use t in \<open>simp add: same_tables_def\<close>)
    from Cons.IH [of ?e'] obtain cs2 where
      t2: "same_tables ?e' (snd (blur_loop ks ?e'))"
      and c2: "calls (snd (blur_loop ks ?e')) = calls ?e' @ cs2"
      and v2: "\<forall>c\<in>set cs2. fst (snd (snd c)) = RELEASED \<and>
               snd (snd (snd c)) = handler_value (fst c) e"
      unfolding hv by blast
    have "calls (snd (blur_loop ((key, pressed) # ks) e)) = calls e @ (cs1 @ cs2)"
      using ok(3) c1 c2 by simp
    moreover have "\<forall>c\<in>set (cs1 @ cs2). fst (snd (snd c)) = RELEASED \<and>
               snd (snd (snd c)) = handler_value (fst c) e"
      using v1 v2 by auto
    moreover have "same_tables e (snd (blur_loop ((key, pressed) # ks) e))"
      using ok(3) t t2 same_tables_trans by simp
    ultimately show ?thesis by blast
  qed
qed

lemma event_step_tables: "same_tables e e' \<Longrightarrow>
    \<exists>cs. calls e' = calls e @ cs \<and> (\<forall>c \<in> set cs. snd (snd (snd c)) = handler_value (fst c) e)
    \<Longrightarrow> event_step e e'"
  by (auto simp: event_step_def same_tables_def)

lemma event_step_axis: "event_step e e' \<Longrightarrow> event_step e (updateAxisValues e')"
  by (auto simp: event_step_def updateAxisValues_frame)

lemma event_step_after_key:
  "event_step e (snd (processInputChange key p (e\<lparr>keyStates := map_set key v (keyStates e)\<rparr>)))"
proof (rule event_step_tables)
  show "same_tables e (snd (processInputChange key p (e\<lparr>keyStates := map_set key v (keyStates e)\<rparr>)))"
    by (rule process_after_key_frame(1))
  show "\<exists>cs. calls (snd (processInputChange key p (e\<lparr>keyStates := map_set key v (keyStates e)\<rparr>)))
          = calls e @ cs \<and> (\<forall>c \<in> set cs. snd (snd (snd c)) = handler_value (fst c) e)"
    using process_after_key_frame(4) [where e = e and key = key and v = v and p = p] by blast
qed

lemma event_step_refl: "event_step e e"
  by (auto simp: event_step_def)

lemma zero_keys: "fst ` (\<lambda>(a, v). (a, 0::int)) ` S = fst ` S"
  by (force simp: image_iff)

lemma handleKeyDown_step: "event_step e (snd (handleKeyDown k e))"
proof -
  let ?r = "processInputChange (toLowerCase k) True
              (e\<lparr>keyStates := map_set (toLowerCase k) True (keyStates e)\<rparr>)"
  have s: "event_step e (snd ?r)" by (rule event_step_after_key)
  show ?thesis
  proof (cases "map_get (keyStates e) (toLowerCase k) = Some True")
    case True
    then show ?thesis by (simp add: handleKeyDown_def event_step_refl)
  next
    case False
    obtain r e1 where n: "?r = (r, e1)" by (rule prod.exhaust)
    with s have s1: "event_step e e1" by simp
    show ?thesis
    proof (cases r)
      case (Inl err)
      then show ?thesis using False n s1 by (simp add: handleKeyDown_def)
    next
      case (Inr u)
      then show ?thesis using False n event_step_axis [OF s1] by (simp add: handleKeyDown_def)
    qed
  qed
qed

lemma handleKeyUp_step: "event_step e (snd (handleKeyUp k e))"
proof -
  let ?r = "processInputChange (toLowerCase k) False
              (e\<lparr>keyStates := map_set (toLowerCase k) False (keyStates e)\<rparr>)"
  have s: "event_step e (snd ?r)" by (rule event_step_after_key)
  obtain r e1 where n: "?r = (r, e1)" by (rule prod.exhaust)
  with s have s1: "event_step e e1" by simp
  show ?thesis
  proof (cases r)
    case (Inl err)
    then show ?thesis using n s1 by (simp add: handleKeyUp_def)
  next
    case (Inr u)
    then show ?thesis using n event_step_axis [OF s1] by (simp add: handleKeyUp_def)
  qed
qed

lemma handleMouse_step:
  "event_step e (snd (handleMouseDown b e))" "event_step e (snd (handleMouseUp b e))"
  by (simp_all add: handleMouseDown_def handleMouseUp_def Let_def event_step_after_key)

lemma handleWindowBlur_step: "event_step e (snd (handleWindowBlur e))"
proof -
  obtain r e1 where n: "blur_loop (keyStates e) e = (r, e1)" by (rule prod.exhaust)
  from blur_loop_frame [of e "keyStates e"] n
  have t: "same_tables e e1"
    and c: "\<exists>cs. calls e1 = calls e @ cs \<and>
      (\<forall>c\<in>set cs. snd (snd (snd c)) = handler_value (fst c) e)"
    by auto
  have s1: "event_step e e1" by (rule event_step_tables [OF t c])
  show ?thesis
  proof (cases r)
    case (Inl err)
    then show ?thesis using n s1 by (simp add: handleWindowBlur_def)
  next
    case (Inr u)
    have "event_step e (e1\<lparr>axisValues := map (\<lambda>(a, v). (a, 0)) (axisValues e1)\<rparr>)"
      using s1 by (simp add: event_step_def zero_keys)
    then show ?thesis using Inr n by (simp add: handleWindowBlur_def)
  qed
qed

lemma raw_event_step: "is_raw_event i \<Longrightarrow> event_step e (perform i e)"
  by (cases i) (simp_all add: handleKeyDown_step handleKeyUp_step handleMouse_step
      handleWindowBlur_step)

lemma perform_activeContexts:
  "\<not> is_context_call i \<Longrightarrow> activeContexts (perform i e) = activeContexts e"
proof (cases "is_raw_event i")
  case True
  then show ?thesis using raw_event_step [of i e] by (simp add: event_step_def)
next
  case False
  assume "\<not> is_context_call i"
  with False show ?thesis
    by (cases i)
       (simp_all add: registerActionHandler_def unregister_def rebindAction_def Let_def
          resetBindings_def saveBindings_def loadBindings_def handleMouseMove_def
          split: option.splits)
qed

subsection \<open>Dispatch when no handler raises\<close>

lemma quiet_update [simp]:
  "quiet (e\<lparr>actionStates := m\<rparr>) = quiet e"
  "quiet (e\<lparr>calls := c\<rparr>) = quiet e"
  "quiet (e\<lparr>keyStates := k\<rparr>) = quiet e"
  "quiet (e\<lparr>axisValues := x\<rparr>) = quiet e"
  by (simp_all add: quiet_def)

lemma handler_value_update [simp]:
  "handler_value a (e\<lparr>actionStates := m\<rparr>) = handler_value a e"
  "handler_value a (e\<lparr>calls := c\<rparr>) = handler_value a e"
  "handler_value a (e\<lparr>keyStates := k\<rparr>) = handler_value a e"
  by (simp_all add: handler_value_def getAxisValue_def)

lemma notified_update [simp]:
  "notified a s (e\<lparr>actionStates := m\<rparr>) = notified a s e"
  "notified a s (e\<lparr>calls := c\<rparr>) = notified a s e"
  "notified a s (e\<lparr>keyStates := k\<rparr>) = notified a s e"
  by (simp_all add: notified_def split: option.splits)

lemma set_states_update [simp]:
  "set_states key p (e\<lparr>actionStates := m'\<rparr>) m = set_states key p e m"
  "set_states key p (e\<lparr>calls := c\<rparr>) m = set_states key p e m"
  "set_states key p (e\<lparr>keyStates := k\<rparr>) m = set_states key p e m"
  by (simp_all add: set_states_def)

lemma dispatched_update [simp]:
  "dispatched key p (e\<lparr>actionStates := m\<rparr>) = dispatched key p e"
  "dispatched key p (e\<lparr>calls := c\<rparr>) = dispatched key p e"
  "dispatched key p (e\<lparr>keyStates := k\<rparr>) = dispatched key p e"
  by (simp_all add: dispatched_def)

lemma notify_loop_quiet:
  "\<forall>h\<in>set hs. \<not> raises h s v \<Longrightarrow>
   notify_loop a s v hs e = (Inr (), e\<lparr>calls := calls e @ map (\<lambda>h. (a, hid h, s, v)) hs\<rparr>)"
  by (induction hs arbitrary: e) simp_all

lemma notifyActionHandlers_quiet:
  assumes "quiet e"
  shows "notifyActionHandlers a s e = (Inr (), e\<lparr>calls := calls e @ notified a s e\<rparr>)"
proof (cases "map_get (actionHandlers e) a")
  case None
  then show ?thesis by (simp add: notifyActionHandlers_def notified_def)
next
  case (Some hs)
  then have "(a, hs) \<in> set (actionHandlers e)"
    by (simp add: map_get_def map_of_SomeD)
  with assms have "\<forall>h\<in>set hs. \<not> raises h s (handler_value a e)"
    by (auto simp: quiet_def)
  from notify_loop_quiet [OF this] Some show ?thesis
    by (simp add: notifyActionHandlers_def notified_def)
qed

lemma process_loop_quiet:
  "quiet e \<Longrightarrow>
   process_loop key p bs e =
     (Inr (), e\<lparr>actionStates :=
                 fold (\<lambda>ab m. m(fst ab \<mapsto> newState p)) (matching key (activeContexts e) bs)
                   (actionStates e),
               calls := calls e @
                 concat (map (\<lambda>ab. notified (fst ab) (newState p) e)
                           (matching key (activeContexts e) bs))\<rparr>)"
proof (induction bs arbitrary: e rule: pair_list_induct)
  case Nil
  show ?case by (simp add: process_loop_Nil matching_Nil)
next
  case (Cons a b bs)
  show ?case
  proof (cases "hit key (activeContexts e) b")
    case False
    then show ?thesis using Cons by (simp add: process_loop_skip matching_Cons)
  next
    case True
    let ?e1 = "e\<lparr>actionStates := (actionStates e)(a \<mapsto> newState p)\<rparr>"
    let ?e2 = "?e1\<lparr>calls := calls ?e1 @ notified a (newState p) ?e1\<rparr>"
    have q1: "quiet ?e1" using Cons.prems by simp
    have n: "notifyActionHandlers a (newState p) ?e1 = (Inr (), ?e2)"
      by (rule notifyActionHandlers_quiet [OF q1])
    have q2: "quiet ?e2" using Cons.prems by simp
    have "process_loop key p ((a, b) # bs) e = process_loop key p bs ?e2"
      by (simp only: process_loop_hit [OF True] n prod.case sum.case)
    also note Cons.IH [OF q2]
    finally show ?thesis using True by (simp add: matching_Cons)
  qed
qed

lemma processInputChange_quiet:
  "quiet e \<Longrightarrow>
   processInputChange key p e =
     (Inr (), e\<lparr>actionStates := set_states key p e (actionStates e),
               calls := calls e @ dispatched key p e\<rparr>)"
  by (simp add: processInputChange_def process_loop_quiet set_states_def dispatched_def)

lemma fold_states_hit:
  "a \<in> fst ` set xs \<Longrightarrow> fold (\<lambda>ab m. m(fst ab \<mapsto> s)) xs m a = Some s"
  by (induction xs arbitrary: m rule: rev_induct) auto

lemma fold_states_miss:
  "a \<notin> fst ` set xs \<Longrightarrow> fold (\<lambda>ab m. m(fst ab \<mapsto> s)) xs m a = m a"
  by (induction xs arbitrary: m) auto

lemma matching_mem:
  "(a, b) \<in> set (matching key ctxs bs) \<longleftrightarrow> (a, b) \<in> set bs \<and> hit key ctxs b"
  by (auto simp: matching_def)

lemma set_states_hit:
  "(a, b) \<in> set (bindings e) \<Longrightarrow> hit key (activeContexts e) b \<Longrightarrow>
   set_states key p e m a = Some (newState p)"
proof -
  assume "(a, b) \<in> set (bindings e)" and "hit key (activeContexts e) b"
  then have "(a, b) \<in> set (matching key (activeContexts e) (bindings e))"
    by (simp add: matching_mem)
  then have "a \<in> fst ` set (matching key (activeContexts e) (bindings e))"
    by (rule rev_image_eqI) simp
  then show ?thesis unfolding set_states_def by (rule fold_states_hit)
qed

lemma set_states_miss:
  "a \<notin> fst ` set (matching key (activeContexts e) (bindings e)) \<Longrightarrow>
   set_states key p e m a = m a"
  unfolding set_states_def by (rule fold_states_miss)

lemma dispatched_mem:
  "(a, b) \<in> set (bindings e) \<Longrightarrow> hit key (activeContexts e) b \<Longrightarrow>
   map_get (actionHandlers e) a = Some hs \<Longrightarrow> h \<in> set hs \<Longrightarrow>
   (a, hid h, newState p, handler_value a e) \<in> set (dispatched key p e)"
proof -
  assume "(a, b) \<in> set (bindings e)" and "hit key (activeContexts e) b"
    and hs: "map_get (actionHandlers e) a = Some hs" and h: "h \<in> set hs"
  then have m: "(a, b) \<in> set (matching key (activeContexts e) (bindings e))"
    by (simp add: matching_mem)
  have "(a, hid h, newState p, handler_value a e) \<in> set (notified a (newState p) e)"
    using hs h by (simp add: notified_def)
  then show ?thesis
    unfolding dispatched_def using m by (auto intro!: bexI [of _ "(a, b)"])
qed

subsection \<open>Raw transitions when no handler raises\<close>

lemma updateAxisValues_update:
  "updateAxisValues e = e\<lparr>axisValues := axisValues (updateAxisValues e)\<rparr>"
  by (simp add: updateAxisValues_def Let_def)

text \<open>A raw transition when no handler raises: what it returns and what it writes.\<close>

lemma transition_quiet:
  assumes "quiet e" and "transition i key p e"
  shows "outcome i e = Inr ()"
    and "actionStates (perform i e) = set_states key p e (actionStates e)"
    and "calls (perform i e) = calls e @ dispatched key p e"
    and "keyStates (perform i e) = map_set key p (keyStates e)"
proof -
  let ?e1 = "e\<lparr>keyStates := map_set key p (keyStates e)\<rparr>"
  let ?e2 = "?e1\<lparr>actionStates := set_states key p e (actionStates e),
                  calls := calls e @ dispatched key p e\<rparr>"
  have q: "quiet ?e1" using assms(1) by simp
  have pr: "processInputChange key p ?e1 = (Inr (), ?e2)"
    using processInputChange_quiet [OF q, of key p] by simp
  have "outcome i e = Inr () \<and> actionStates (perform i e) = set_states key p e (actionStates e)
      \<and> calls (perform i e) = calls e @ dispatched key p e
      \<and> keyStates (perform i e) = map_set key p (keyStates e)"
  proof (cases i)
    case (KeyDown k)
    with assms(2) have k: "toLowerCase k = key" "p" "map_get (keyStates e) key \<noteq> Some True"
      by simp_all
    have "handleKeyDown k e = (Inr (), updateAxisValues ?e2)"
      using k pr by (simp add: handleKeyDown_def)
    then show ?thesis using KeyDown by (simp add: updateAxisValues_frame)
  next
    case (KeyUp k)
    with assms(2) have k: "toLowerCase k = key" "\<not> p" by simp_all
    have "handleKeyUp k e = (Inr (), updateAxisValues ?e2)"
      using k pr by (simp add: handleKeyUp_def)
    then show ?thesis using KeyUp by (simp add: updateAxisValues_frame)
  next
    case (MouseDown b)
    with assms(2) have k: "mouse_token b = key" "p" by simp_all
    have "handleMouseDown b e = (Inr (), ?e2)"
      using k pr by (simp add: handleMouseDown_def)
    then show ?thesis using MouseDown by simp
  next
    case (MouseUp b)
    with assms(2) have k: "mouse_token b = key" "\<not> p" by simp_all
    have "handleMouseUp b e = (Inr (), ?e2)"
      using k pr by (simp add: handleMouseUp_def)
    then show ?thesis using MouseUp by simp
  qed (use assms(2) in simp_all)
  then show "outcome i e = Inr ()"
    and "actionStates (perform i e) = set_states key p e (actionStates e)"
    and "calls (perform i e) = calls e @ dispatched key p e"
    and "keyStates (perform i e) = map_set key p (keyStates e)"
    by simp_all
qed

lemma getBinding_mem: "getBinding a e = Some b \<Longrightarrow> (a, b) \<in> set (bindings e)"
  by (simp add: getBinding_def map_get_def map_of_SomeD)

subsection \<open>Dispatch that returns\<close>

lemma notify_loop_returns:
  "fst (notify_loop a s v hs e) = Inr () \<Longrightarrow> \<forall>h\<in>set hs. \<not> raises h s v"
  by (induction hs arbitrary: e) (auto simp: Let_def split: if_splits)

lemma notifyActionHandlers_returns:
  assumes "fst (notifyActionHandlers a s e) = Inr ()"
  shows "notifyActionHandlers a s e = (Inr (), e\<lparr>calls := calls e @ notified a s e\<rparr>)"
proof (cases "map_get (actionHandlers e) a")
  case None
  then show ?thesis by (simp add: notifyActionHandlers_def notified_def)
next
  case (Some hs)
  with assms have "fst (notify_loop a s (handler_value a e) hs e) = Inr ()"
    by (simp add: notifyActionHandlers_def)
  from notify_loop_quiet [OF notify_loop_returns [OF this]] Some show ?thesis
    by (simp add: notifyActionHandlers_def notified_def)
qed

lemma process_loop_returns:
  "fst (process_loop key p bs e) = Inr () \<Longrightarrow>
   process_loop key p bs e =
     (Inr (), e\<lparr>actionStates :=
                 fold (\<lambda>ab m. m(fst ab \<mapsto> newState p)) (matching key (activeContexts e) bs)
                   (actionStates e),
               calls := calls e @
                 concat (map (\<lambda>ab. notified (fst ab) (newState p) e)
                           (matching key (activeContexts e) bs))\<rparr>)"
proof (induction bs arbitrary: e rule: pair_list_induct)
  case Nil
  show ?case by (simp add: process_loop_Nil matching_Nil)
next
  case (Cons a b bs)
  show ?case
  proof (cases rule: process_loop_cases [of key e b p a bs])
    case skip
    then show ?thesis using Cons by (simp add: matching_Cons)
  next
    case (raise err e2)
    with Cons.prems show ?thesis by simp
  next
    case (ok e2)
    let ?e1 = "e\<lparr>actionStates := (actionStates e)(a \<mapsto> newState p)\<rparr>"
    from ok(2) have "fst (notifyActionHandlers a (newState p) ?e1) = Inr ()" by simp
    from notifyActionHandlers_returns [OF this] ok(2)
    have e2: "e2 = ?e1\<lparr>calls := calls ?e1 @ notified a (newState p) ?e1\<rparr>" by simp
    from Cons.prems ok(3) have "fst (process_loop key p bs e2) = Inr ()" by simp
    from Cons.IH [OF this] ok(1,3) show ?thesis
      by (simp add: e2 matching_Cons)
  qed
qed

lemma processInputChange_returns:
  "fst (processInputChange key p e) = Inr () \<Longrightarrow>
   processInputChange key p e =
     (Inr (), e\<lparr>actionStates := set_states key p e (actionStates e),
               calls := calls e @ dispatched key p e\<rparr>)"
  by (simp add: processInputChange_def process_loop_returns set_states_def dispatched_def)

text \<open>A raw transition that returns without an exception: what it writes.\<close>

lemma transition_returns:
  assumes "transition i key p e" and "outcome i e = Inr ()"
  shows "actionStates (perform i e) = set_states key p e (actionStates e)"
    and "calls (perform i e) = calls e @ dispatched key p e"
    and "keyStates (perform i e) = map_set key p (keyStates e)"
proof -
  let ?e1 = "e\<lparr>keyStates := map_set key p (keyStates e)\<rparr>"
  let ?e2 = "?e1\<lparr>actionStates := set_states key p e (actionStates e),
                  calls := calls e @ dispatched key p e\<rparr>"
  have pr: "fst (processInputChange key p ?e1) = Inr () \<Longrightarrow>
      processInputChange key p ?e1 = (Inr (), ?e2)"
    using processInputChange_returns [of key p ?e1] by simp
  have "actionStates (perform i e) = set_states key p e (actionStates e)
      \<and> calls (perform i e) = calls e @ dispatched key p e
      \<and> keyStates (perform i e) = map_set key p (keyStates e)"
  proof (cases i)
    case (KeyDown k)
    with assms(1) have k: "toLowerCase k = key" "p" "map_get (keyStates e) key \<noteq> Some True"
      by simp_all
    from assms(2) KeyDown k have "fst (processInputChange key p ?e1) = Inr ()"
      by (auto simp: handleKeyDown_def Let_def split: prod.splits sum.splits)
    from pr [OF this] have "handleKeyDown k e = (Inr (), updateAxisValues ?e2)"
      using k by (simp add: handleKeyDown_def)
    then show ?thesis using KeyDown by (simp add: updateAxisValues_frame)
  next
    case (KeyUp k)
    with assms(1) have k: "toLowerCase k = key" "\<not> p" by simp_all
    from assms(2) KeyUp k have "fst (processInputChange key p ?e1) = Inr ()"
      by (auto simp: handleKeyUp_def Let_def split: prod.splits sum.splits)
    from pr [OF this] have "handleKeyUp k e = (Inr (), updateAxisValues ?e2)"
      using k by (simp add: handleKeyUp_def)
    then show ?thesis using KeyUp by (simp add: updateAxisValues_frame)
  next
    case (MouseDown b)
    with assms(1) have k: "mouse_token b = key" "p" by simp_all
    from assms(2) MouseDown k have "fst (processInputChange key p ?e1) = Inr ()"
      by (simp add: handleMouseDown_def Let_def)
    from pr [OF this] have "handleMouseDown b e = (Inr (), ?e2)"
      using k by (simp add: handleMouseDown_def)
    then show ?thesis using MouseDown by simp
  next
    case (MouseUp b)
    with assms(1) have k: "mouse_token b = key" "\<not> p" by simp_all
    from assms(2) MouseUp k have "fst (processInputChange key p ?e1) = Inr ()"
      by (simp add: handleMouseUp_def Let_def)
    from pr [OF this] have "handleMouseUp b e = (Inr (), ?e2)"
      using k by (simp add: handleMouseUp_def)
    then show ?thesis using MouseUp by simp
  qed (use assms(1) in simp_all)
  then show "actionStates (perform i e) = set_states key p e (actionStates e)"
    and "calls (perform i e) = calls e @ dispatched key p e"
    and "keyStates (perform i e) = map_set key p (keyStates e)"
    by simp_all
qed

lemma returning_transition_reaches:
  assumes "transition i key p e" and "outcome i e = Inr ()"
    and "getBinding a e = Some b" and "isContextEnabled (bcontext b) e"
    and "primary b = key \<or> secondary b = Some key"
  shows "isActionInState a (newState p) (perform i e)"
    and "map_get (actionHandlers e) a = Some hs \<Longrightarrow> h \<in> set hs \<Longrightarrow>
         (a, hid h, newState p, handler_value a e) \<in> set (new_calls e (perform i e))"
proof -
  have m: "(a, b) \<in> set (bindings e)" by (rule getBinding_mem [OF assms(3)])
  have h: "hit key (activeContexts e) b"
    using assms(4,5) by (simp add: hit_def isContextEnabled_def)
  show "isActionInState a (newState p) (perform i e)"
    by (simp add: isActionInState_def transition_returns(1) [OF assms(1,2)] set_states_hit [OF m h])
  show "map_get (actionHandlers e) a = Some hs \<Longrightarrow> h \<in> set hs \<Longrightarrow>
         (a, hid h, newState p, handler_value a e) \<in> set (new_calls e (perform i e))"
    by (simp add: new_calls_def transition_returns(2) [OF assms(1,2)] dispatched_mem [OF m h])
qed

lemma repeat_ignored:
  "map_get (keyStates e) (toLowerCase key) = Some True \<Longrightarrow> handleKeyDown key e = (Inr (), e)"
  by (simp add: handleKeyDown_def)

subsection \<open>Rebinding\<close>

lemmas table_defs =
  constructor_def initial_def resetBindings_def loadBindings_def enableContext_def
  defaultBindings_def mk_binding_def map_get_def map_has_def getBinding_def

text \<open>
  C7. When the action has no binding, or its binding is not rebindable,
  \<^verbatim>\<open>rebindAction\<close> returns \<^verbatim>\<open>false\<close> and the service (so the whole binding table) is
  what it was. The function has no raising path on these inputs: it returns before
  \<^verbatim>\<open>toLowerCase\<close> is reached.
\<close>

theorem rebindAction_refused:
  assumes "getBinding a e = None \<or> (\<exists>b. getBinding a e = Some b \<and> \<not> rebindable b)"
  shows "rebindAction a p s e = (False, e)"
  using assms by (auto simp: rebindAction_def getBinding_def)

theorem rebindAction_refused_witness:
  "getBinding PICK_UP (constructor None) = None
   \<and> (\<exists>b. getBinding MENU_TOGGLE (constructor None) = Some b \<and> \<not> rebindable b)
   \<and> rebindAction PICK_UP ''K'' (Some ''J'') (constructor None) = (False, constructor None)
   \<and> rebindAction MENU_TOGGLE ''K'' None (constructor None) = (False, constructor None)"
proof -
  have n: "getBinding PICK_UP (constructor None) = None"
    by (simp add: table_defs)
  have m: "\<exists>b. getBinding MENU_TOGGLE (constructor None) = Some b \<and> \<not> rebindable b"
    by (simp add: table_defs)
  from n m
    rebindAction_refused [of PICK_UP "constructor None" "''K''" "Some ''J''"]
    rebindAction_refused [of MENU_TOGGLE "constructor None" "''K''" None]
  show ?thesis by blast
qed

text \<open>
  C8, as the code has it. For an action with a rebindable binding, \<^verbatim>\<open>rebindAction\<close>
  returns \<^verbatim>\<open>true\<close>; the new binding has the lower-cased primary; its secondary is the
  lower-cased argument when a non-empty one is given and absent when the argument is
  omitted or is the empty string; action, context, description and rebindable flag are
  kept; the binding of every other action, the order of the table and every other field
  of the service are unchanged.
\<close>

theorem rebindAction_success:
  assumes "getBinding a e = Some b" and "rebindable b"
  shows "fst (rebindAction a p s e) = True
    \<and> (\<exists>b'. getBinding a (snd (rebindAction a p s e)) = Some b'
          \<and> primary b' = toLowerCase p
          \<and> secondary b' = (case s of None \<Rightarrow> None
                             | Some t \<Rightarrow> if t = [] then None else Some (toLowerCase t))
          \<and> action b' = action b \<and> bcontext b' = bcontext b
          \<and> description b' = description b \<and> rebindable b' = rebindable b)
    \<and> (\<forall>a'. a' \<noteq> a \<longrightarrow> getBinding a' (snd (rebindAction a p s e)) = getBinding a' e)
    \<and> map fst (bindings (snd (rebindAction a p s e))) = map fst (bindings e)
    \<and> snd (rebindAction a p s e) = e\<lparr>bindings := bindings (snd (rebindAction a p s e))\<rparr>"
proof -
  from assms(1) have k: "a \<in> fst ` set (bindings e)"
    by (simp add: getBinding_def map_get_Some_key)
  show ?thesis
    using assms k
    by (cases s) (simp_all add: rebindAction_def getBinding_def map_get_map_set
        keys_map_set_present)
qed

theorem rebindAction_success_witness:
  "getBinding JUMP (constructor None)
     = Some (mk_binding JUMP '' '' None PLAYER ''Jump'' True)
   \<and> fst (rebindAction JUMP ''K'' (Some ''Enter'') (constructor None)) = True
   \<and> getBinding JUMP (snd (rebindAction JUMP ''K'' (Some ''Enter'') (constructor None)))
     = Some (mk_binding JUMP ''k'' (Some ''enter'') PLAYER ''Jump'' True)"
proof -
  have g: "getBinding JUMP (constructor None)
     = Some (mk_binding JUMP '' '' None PLAYER ''Jump'' True)"
    by (simp add: table_defs)
  have r: "rebindable (mk_binding JUMP '' '' None PLAYER ''Jump'' True)"
    by (simp add: mk_binding_def)
  have l: "toLowerCase ''K'' = ''k''" "toLowerCase ''Enter'' = ''enter''"
    by code_simp+
  from rebindAction_success [OF g r, of "''K''" "Some ''Enter''"] l
  show ?thesis using g by (auto simp: mk_binding_def)
qed

text \<open>
  The claim C8 as written fails for a secondary argument that is given but empty:
  the binding loses its secondary instead of getting the (empty) lower-cased token.
\<close>

theorem rebindAction_empty_secondary_counterexample:
  "map_option rebindable (getBinding JUMP (constructor None)) = Some True
   \<and> fst (rebindAction JUMP ''k'' (Some []) (constructor None)) = True
   \<and> map_option secondary
       (getBinding JUMP (snd (rebindAction JUMP ''k'' (Some []) (constructor None))))
     = Some None
   \<and> Some None \<noteq> Some (Some (toLowerCase []))"
  by (simp add: table_defs rebindAction_def map_get_map_set toLowerCase_def)

subsection \<open>The context gate\<close>

lemma constructor_gate: "activeContexts (constructor st) = {PLAYER}"
  by (cases st) (simp_all add: constructor_def initial_def resetBindings_def loadBindings_def
      enableContext_def)

lemma run_activeContexts:
  "list_all (\<lambda>i. \<not> is_context_call i) is \<Longrightarrow> activeContexts (run is e) = activeContexts e"
  unfolding run_def
  by (induction "is" arbitrary: e) (simp_all add: perform_activeContexts)

text \<open>
  C9, as the code has it. The constructor ends by enabling the player context, so right
  after construction the gate is exactly \<open>{PLAYER}\<close>. After that, a call or event other
  than \<^verbatim>\<open>enableContext\<close> and \<^verbatim>\<open>disableContext\<close> leaves the gate as it is (also over
  a whole sequence of such calls), \<^verbatim>\<open>enableContext\<close> adds its context and
  \<^verbatim>\<open>disableContext\<close> removes it.
\<close>

theorem context_gate_lifecycle:
  "activeContexts (constructor st) = {PLAYER}
   \<and> (\<not> is_context_call i \<longrightarrow> activeContexts (perform i e) = activeContexts e)
   \<and> (list_all (\<lambda>i. \<not> is_context_call i) is
        \<longrightarrow> activeContexts (run is (constructor st)) = {PLAYER})
   \<and> activeContexts (perform (EnableContext c) e) = insert c (activeContexts e)
   \<and> activeContexts (perform (DisableContext c) e) = activeContexts e - {c}"
  by (simp add: constructor_gate perform_activeContexts run_activeContexts
      enableContext_def disableContext_def)

theorem context_gate_lifecycle_witness:
  "activeContexts (constructor None) = {PLAYER}
   \<and> activeContexts (perform (KeyDown ''w'') (constructor None)) = {PLAYER}
   \<and> activeContexts (run [KeyDown ''w'', RebindAction JUMP ''k'' None, WindowBlur]
                        (constructor None)) = {PLAYER}
   \<and> activeContexts (perform (DisableContext PLAYER) (constructor None)) = {}"
proof -
  note t = context_gate_lifecycle [of None "KeyDown ''w''" "constructor None"
      "[KeyDown ''w'', RebindAction JUMP ''k'' None, WindowBlur]" PLAYER]
  have "\<not> is_context_call (KeyDown ''w'')" by simp
  moreover have "list_all (\<lambda>i. \<not> is_context_call i)
      [KeyDown ''w'', RebindAction JUMP ''k'' None, WindowBlur]" by simp
  ultimately show ?thesis using t by simp
qed

text \<open>The claim C9 as written fails: the gate is not empty after construction.\<close>

theorem constructor_gate_counterexample: "activeContexts (constructor None) \<noteq> {}"
  by (simp add: constructor_def initial_def resetBindings_def loadBindings_def enableContext_def)

subsection \<open>Axis values of the negative directions\<close>

lemma axis_inv_none: "fst ` set (axisValues e) \<subseteq> axis_keys \<Longrightarrow>
   getAxisValue MOVE_LEFT e = 0 \<and> getAxisValue MOVE_BACKWARD e = 0"
proof -
  assume k: "fst ` set (axisValues e) \<subseteq> axis_keys"
  have "map_of (axisValues e) MOVE_LEFT = None" "map_of (axisValues e) MOVE_BACKWARD = None"
    using k by (auto simp: map_of_eq_None_iff axis_keys_def)
  then show ?thesis by (simp add: getAxisValue_def map_get_def)
qed

lemma axis_inv_event: assumes "axis_inv e" and "event_step e e'" shows "axis_inv e'"
proof -
  from assms(1) have k: "fst ` set (axisValues e) \<subseteq> axis_keys"
    and c: "\<forall>c \<in> set (calls e). fst c = MOVE_LEFT \<or> fst c = MOVE_BACKWARD
         \<longrightarrow> snd (snd (snd c)) = Some (Num 0)"
    by (simp_all add: axis_inv_def)
  from axis_inv_none [OF k] have hv:
    "handler_value MOVE_LEFT e = Some (Num 0)" "handler_value MOVE_BACKWARD e = Some (Num 0)"
    by (simp_all add: handler_value_def)
  from assms(2) obtain cs where
    k': "fst ` set (axisValues e') \<subseteq> {MOVE_RIGHT, MOVE_FORWARD} \<union> fst ` set (axisValues e)"
    and c': "calls e' = calls e @ cs"
    and v: "\<forall>c \<in> set cs. snd (snd (snd c)) = handler_value (fst c) e"
    by (auto simp: event_step_def)
  have "fst ` set (axisValues e') \<subseteq> axis_keys"
    using k k' unfolding axis_keys_def by blast
  moreover have "\<forall>c \<in> set (calls e'). fst c = MOVE_LEFT \<or> fst c = MOVE_BACKWARD
         \<longrightarrow> snd (snd (snd c)) = Some (Num 0)"
    using c c' v hv by auto
  ultimately show ?thesis by (simp add: axis_inv_def)
qed

lemma axis_inv_perform: "axis_inv e \<Longrightarrow> axis_inv (perform i e)"
proof (cases "is_raw_event i")
  case True
  assume "axis_inv e"
  then show ?thesis using raw_event_step [OF True] by (rule axis_inv_event)
next
  case False
  assume "axis_inv e"
  with False show ?thesis
    by (cases i)
       (auto simp: axis_inv_def registerActionHandler_def unregister_def rebindAction_def
          Let_def resetBindings_def saveBindings_def loadBindings_def handleMouseMove_def
          enableContext_def disableContext_def keys_map_set axis_keys_def
          split: option.splits)
qed

lemma axis_inv_constructor: "axis_inv (constructor st)"
  by (cases st) (simp_all add: axis_inv_def constructor_def initial_def resetBindings_def
      loadBindings_def enableContext_def)

lemma axis_inv_run: "axis_inv e \<Longrightarrow> axis_inv (run is e)"
  unfolding run_def by (induction "is" arbitrary: e) (simp_all add: axis_inv_perform)

text \<open>
  C10. In every state reached from construction (with any stored item) by any sequence
  of calls and events, \<^verbatim>\<open>getAxisValue\<close> is 0 for \<open>MOVE_LEFT\<close> and for
  \<open>MOVE_BACKWARD\<close>, axis values are stored under \<open>MOVE_RIGHT\<close>, \<open>MOVE_FORWARD\<close> and
  \<open>CAMERA_LOOK\<close> only, and every handler call ever made for \<open>MOVE_LEFT\<close> or
  \<open>MOVE_BACKWARD\<close> was passed the number 0.
\<close>

theorem negative_axis_always_zero:
  "getAxisValue MOVE_LEFT (run is (constructor st)) = 0
   \<and> getAxisValue MOVE_BACKWARD (run is (constructor st)) = 0
   \<and> fst ` set (axisValues (run is (constructor st))) \<subseteq> axis_keys
   \<and> (\<forall>c \<in> set (calls (run is (constructor st))).
         fst c = MOVE_LEFT \<or> fst c = MOVE_BACKWARD \<longrightarrow> snd (snd (snd c)) = Some (Num 0))"
proof -
  have i: "axis_inv (run is (constructor st))"
    by (rule axis_inv_run [OF axis_inv_constructor])
  then have "fst ` set (axisValues (run is (constructor st))) \<subseteq> axis_keys"
    by (simp add: axis_inv_def)
  from axis_inv_none [OF this] this i show ?thesis by (simp add: axis_inv_def)
qed

theorem negative_axis_always_zero_witness:
  "getAxisValue MOVE_LEFT
     (run [Register MOVE_LEFT (ok_handler 7), KeyDown ''A'', KeyDown ''d'']
        (constructor None)) = 0
   \<and> calls (run [Register MOVE_LEFT (ok_handler 7), KeyDown ''A'', KeyDown ''d'']
              (constructor None))
     = [(MOVE_LEFT, 7, PRESSED, Some (Num 0))]
   \<and> map_get (keyStates (run [Register MOVE_LEFT (ok_handler 7), KeyDown ''A'', KeyDown ''d'']
              (constructor None))) ''a'' = Some True"
proof -
  have "calls (run [Register MOVE_LEFT (ok_handler 7), KeyDown ''A'', KeyDown ''d'']
              (constructor None))
     = [(MOVE_LEFT, 7, PRESSED, Some (Num 0))]"
    by code_simp
  moreover have "map_get (keyStates
       (run [Register MOVE_LEFT (ok_handler 7), KeyDown ''A'', KeyDown ''d'']
              (constructor None))) ''a'' = Some True"
    by code_simp
  ultimately show ?thesis
    using negative_axis_always_zero
      [of "[Register MOVE_LEFT (ok_handler 7), KeyDown ''A'', KeyDown ''d'']" None]
    by simp
qed

subsection \<open>A handler that raises\<close>

text \<open>
  C1 does not hold of the code. With the default bindings the space key is bound to
  \<open>JUMP\<close> and to \<open>RELEASE_GRAPPLE\<close>. Handler 1 (raising) and handler 2 are registered
  for \<open>JUMP\<close>, handler 3 for \<open>RELEASE_GRAPPLE\<close>. On key-down of the space key handler 1
  is called and its exception leaves \<^verbatim>\<open>handleKeyDown\<close>: handler 2 and handler 3 are never
  called, \<open>RELEASE_GRAPPLE\<close> gets no state, and the axis values are not updated.
\<close>

theorem handler_exception_aborts_dispatch:
  "fst (handleKeyDown '' '' scene_raising)
     = Inl (HandlerError 1)
   \<and> calls (snd (handleKeyDown '' '' scene_raising))
     = [(JUMP, 1, PRESSED, None)]
   \<and> actionStates (snd (handleKeyDown '' '' scene_raising)) JUMP
     = Some PRESSED
   \<and> actionStates (snd (handleKeyDown '' '' scene_raising)) RELEASE_GRAPPLE
     = None
   \<and> getBinding RELEASE_GRAPPLE (constructor None)
     = Some (mk_binding RELEASE_GRAPPLE '' '' None PLAYER ''Release Grapple'' True)
   \<and> isContextEnabled PLAYER (constructor None)"
  by code_simp

subsection \<open>Saving and loading the bindings\<close>

lemma default_actions_distinct: "distinct (map action defaultBindings)"
  by (simp add: defaultBindings_def mk_binding_def)

lemma resetBindings_table:
  "bindings (resetBindings e) = map (\<lambda>b. (action b, b)) defaultBindings"
  by (simp add: resetBindings_def defaultBindings_def mk_binding_def)

lemma keyed_reset: "keyed_by_action (bindings (resetBindings e))"
  by (simp add: keyed_by_action_def resetBindings_table list_all_iff comp_def)

lemma list_all_map_set:
  "list_all P t \<Longrightarrow> P (k, v) \<Longrightarrow> list_all P (map_set k v t)"
  by (induction t) auto

lemma keyed_rebind:
  assumes "keyed_by_action (bindings e)"
  shows "keyed_by_action (bindings (snd (rebindAction a p s e)))"
proof (cases "map_get (bindings e) a")
  case None
  then show ?thesis using assms by (simp add: rebindAction_def)
next
  case (Some b)
  then have k: "a \<in> fst ` set (bindings e)" by (rule map_get_Some_key)
  have "(a, b) \<in> set (bindings e)" using Some by (simp add: map_get_def map_of_SomeD)
  with assms have ab: "action b = a" by (auto simp: keyed_by_action_def list_all_iff)
  show ?thesis
    using assms Some k ab
    by (simp add: rebindAction_def keyed_by_action_def keys_map_set_present list_all_map_set)
qed

lemma keyed_rebinds:
  "keyed_by_action (bindings e) \<Longrightarrow> keyed_by_action (bindings (apply_rebinds cs e))"
  unfolding apply_rebinds_def
  by (induction cs arbitrary: e) (auto simp: keyed_rebind)

lemma load_fold:
  "distinct (map fst (p @ t)) \<Longrightarrow> map fst t = map fst t' \<Longrightarrow>
   list_all (\<lambda>ab. action (snd ab) = fst ab) t' \<Longrightarrow>
   fold load_step (map snd t') (p @ t) = p @ t'"
proof (induction t' arbitrary: t p rule: pair_list_induct)
  case Nil
  then show ?case by simp
next
  case (Cons a b t')
  from Cons.prems(2) obtain b0 t0 where t: "t = (a, b0) # t0" and m: "map fst t0 = map fst t'"
    by (cases t) auto
  from Cons.prems(3) have ab: "action b = a" and rest: "list_all (\<lambda>ab. action (snd ab) = fst ab) t'"
    by simp_all
  from Cons.prems(1) have fresh: "a \<notin> fst ` set p" by (simp add: t)
  have has: "map_has (p @ (a, b0) # t0) a"
    by (simp add: map_has_def map_of_eq_None_iff)
  have step: "load_step b (p @ (a, b0) # t0) = (p @ [(a, b)]) @ t0"
    using has fresh by (simp add: load_step_def ab map_set_append_fresh)
  have d: "distinct (map fst ((p @ [(a, b)]) @ t0))"
    using Cons.prems(1) by (simp add: t)
  have "fold load_step (map snd t') ((p @ [(a, b)]) @ t0) = (p @ [(a, b)]) @ t'"
    by (rule Cons.IH [OF d m rest])
  then show ?case by (simp add: t step)
qed

text \<open>
  C2. Start from the default bindings and make any sequence of \<^verbatim>\<open>rebindAction\<close> calls.
  Then \<^verbatim>\<open>saveBindings\<close>, \<^verbatim>\<open>resetBindings\<close>, \<^verbatim>\<open>loadBindings\<close> (the storage giving back
  what was stored) ends with the binding table it started with: the same entries in the
  same order, so for every action the same primary, secondary, context, description and
  rebindable flag.
\<close>

theorem save_reset_load_roundtrip:
  "bindings (loadBindings (resetBindings (saveBindings (apply_rebinds cs (resetBindings e0)))))
     = bindings (apply_rebinds cs (resetBindings e0))
   \<and> (getBinding a (loadBindings (resetBindings (saveBindings (apply_rebinds cs (resetBindings e0)))))
     = getBinding a (apply_rebinds cs (resetBindings e0)))"
proof -
  let ?e = "apply_rebinds cs (resetBindings e0)"
  have k: "keyed_by_action (bindings ?e)" by (rule keyed_rebinds [OF keyed_reset])
  let ?r = "resetBindings (saveBindings ?e)"
  have st: "storage ?r = Some (map snd (bindings ?e))"
    by (simp add: resetBindings_def saveBindings_def)
  have d: "distinct (map fst ([] @ bindings ?r))"
    using default_actions_distinct by (simp add: resetBindings_table comp_def)
  have m: "map fst (bindings ?r) = map fst (bindings ?e)"
    using k by (simp add: resetBindings_table keyed_by_action_def comp_def)
  have "fold load_step (map snd (bindings ?e)) ([] @ bindings ?r) = [] @ bindings ?e"
    using k by (intro load_fold [OF d m]) (simp add: keyed_by_action_def)
  then have "bindings (loadBindings ?r) = bindings ?e"
    by (simp add: loadBindings_def st)
  then show ?thesis by (simp add: getBinding_def)
qed

theorem save_reset_load_roundtrip_witness:
  "getBinding MOVE_LEFT
     (loadBindings (resetBindings (saveBindings
        (apply_rebinds [(JUMP, ''K'', None), (MENU_TOGGLE, ''x'', None),
                        (MOVE_LEFT, ''Q'', Some ''Z'')] (resetBindings (initial None))))))
     = Some (mk_binding MOVE_LEFT ''q'' (Some ''z'') PLAYER ''Move Left'' True)"
proof -
  have "getBinding MOVE_LEFT
        (apply_rebinds [(JUMP, ''K'', None), (MENU_TOGGLE, ''x'', None),
                        (MOVE_LEFT, ''Q'', Some ''Z'')] (resetBindings (initial None)))
     = Some (mk_binding MOVE_LEFT ''q'' (Some ''z'') PLAYER ''Move Left'' True)"
    by code_simp
  then show ?thesis
    using save_reset_load_roundtrip
      [of "[(JUMP, ''K'', None), (MENU_TOGGLE, ''x'', None), (MOVE_LEFT, ''Q'', Some ''Z'')]"
          "initial None" MOVE_LEFT]
    by simp
qed

subsection \<open>Context gating and fan-out\<close>

lemma quiet_context:
  "quiet (enableContext c e) = quiet e" "quiet (disableContext c e) = quiet e"
  by (simp_all add: quiet_def enableContext_def disableContext_def)

lemma set_map_set: "set (map_set k v m) \<subseteq> insert (k, v) (set m)"
  by (induction m) (auto split: if_splits)

lemma quiet_constructor: "quiet (constructor st)"
  by (cases st) (simp_all add: quiet_def constructor_def initial_def resetBindings_def
      loadBindings_def enableContext_def)

lemma quiet_register:
  assumes "quiet e" and "\<forall>s v. \<not> raises h s v"
  shows "quiet (registerActionHandler a h e)"
proof -
  define hm where "hm = (if \<not> map_has (actionHandlers e) a then map_set a [] (actionHandlers e)
                else actionHandlers e)"
  define handlers where "handlers = (case map_get hm a of Some hs \<Rightarrow> hs | None \<Rightarrow> [])"
  have hm: "\<forall>ahs \<in> set hm. \<forall>h \<in> set (snd ahs). \<forall>s v. \<not> raises h s v"
    using assms(1) set_map_set [of a "[]" "actionHandlers e"]
    by (auto simp: hm_def quiet_def)
  have "\<forall>h \<in> set handlers. \<forall>s v. \<not> raises h s v"
  proof (cases "map_get hm a")
    case None
    then show ?thesis by (simp add: handlers_def)
  next
    case (Some hs)
    then have "(a, hs) \<in> set hm" by (simp add: map_get_def map_of_SomeD)
    with hm Some show ?thesis by (auto simp: handlers_def)
  qed
  with assms(2) have "\<forall>x \<in> set (set_add h handlers). \<forall>s v. \<not> raises x s v"
    by (auto simp: set_add_def)
  with hm set_map_set [of a "set_add h handlers" hm]
  have "\<forall>ahs \<in> set (map_set a (set_add h handlers) hm). \<forall>h \<in> set (snd ahs). \<forall>s v. \<not> raises h s v"
    by auto
  then show ?thesis
    by (simp add: registerActionHandler_def quiet_def hm_def handlers_def Let_def)
qed

lemma quiet_ok_handler: "\<forall>s v. \<not> raises (ok_handler n) s v"
  by (simp add: ok_handler_def)

lemma not_matching:
  assumes "distinct (map fst bs)" and "map_of bs a = Some b" and "bcontext b \<notin> ctxs"
  shows "a \<notin> fst ` set (matching key ctxs bs)"
proof
  assume "a \<in> fst ` set (matching key ctxs bs)"
  then obtain b' where m: "(a, b') \<in> set bs" and h: "hit key ctxs b'"
    by (auto simp: matching_mem)
  from assms(1) m have "map_of bs a = Some b'" by (rule map_of_is_SomeI)
  with assms(2) have "b' = b" by simp
  with h assms(3) show False by (simp add: hit_def)
qed

text \<open>A press reaches only the actions matching its control.\<close>

lemma press_frame:
  assumes "is_press i"
  shows "\<exists>key. (\<forall>a. a \<notin> fst ` set (matching key (activeContexts e) (bindings e))
                 \<longrightarrow> actionStates (perform i e) a = actionStates e a)
           \<and> (\<forall>c \<in> set (new_calls e (perform i e)).
                 fst c \<in> fst ` set (matching key (activeContexts e) (bindings e)))"
proof -
  have after: "\<And>key.
      (\<forall>a. a \<notin> fst ` set (matching key (activeContexts e) (bindings e))
         \<longrightarrow> actionStates (snd (processInputChange key True
               (e\<lparr>keyStates := map_set key True (keyStates e)\<rparr>))) a = actionStates e a)
      \<and> (\<forall>c \<in> set (new_calls e (snd (processInputChange key True
               (e\<lparr>keyStates := map_set key True (keyStates e)\<rparr>)))).
             fst c \<in> fst ` set (matching key (activeContexts e) (bindings e)))"
  proof -
    fix key
    from process_after_key_frame(4) [where e = e and key = key and v = True and p = True]
    obtain cs where c: "calls (snd (processInputChange key True
               (e\<lparr>keyStates := map_set key True (keyStates e)\<rparr>))) = calls e @ cs"
      and v: "\<forall>c\<in>set cs. fst c \<in> fst ` set (matching key (activeContexts e) (bindings e))"
      by blast
    show "(\<forall>a. a \<notin> fst ` set (matching key (activeContexts e) (bindings e))
         \<longrightarrow> actionStates (snd (processInputChange key True
               (e\<lparr>keyStates := map_set key True (keyStates e)\<rparr>))) a = actionStates e a)
      \<and> (\<forall>c \<in> set (new_calls e (snd (processInputChange key True
               (e\<lparr>keyStates := map_set key True (keyStates e)\<rparr>)))).
             fst c \<in> fst ` set (matching key (activeContexts e) (bindings e)))"
      using process_after_key_frame(3) [where e = e and key = key and v = True and p = True]
        c v by (simp add: new_calls_def)
  qed
  show ?thesis
  proof (cases i)
    case (KeyDown k)
    let ?r = "processInputChange (toLowerCase k) True
                (e\<lparr>keyStates := map_set (toLowerCase k) True (keyStates e)\<rparr>)"
    have "perform i e = e \<or> perform i e = snd ?r \<or> perform i e = updateAxisValues (snd ?r)"
    proof (cases "map_get (keyStates e) (toLowerCase k) = Some True")
      case True
      then show ?thesis using KeyDown by (simp add: handleKeyDown_def)
    next
      case False
      obtain r e1 where n: "?r = (r, e1)" by (rule prod.exhaust)
      show ?thesis
        using KeyDown False n by (cases r) (simp_all add: handleKeyDown_def)
    qed
    then consider "perform i e = e" | "perform i e = snd ?r"
      | "perform i e = updateAxisValues (snd ?r)" by blast
    then show ?thesis
    proof cases
      case 1
      then show ?thesis by (simp add: new_calls_def)
    next
      case 2
      then show ?thesis using after [of "toLowerCase k"] by auto
    next
      case 3
      then show ?thesis
        using after [of "toLowerCase k"]
        by (intro exI [of _ "toLowerCase k"]) (simp add: new_calls_def updateAxisValues_frame)
    qed
  next
    case (MouseDown b)
    then show ?thesis
      using after [of "mouse_token b"]
      by (intro exI [of _ "mouse_token b"]) (simp add: handleMouseDown_def Let_def)
  qed (use assms in simp_all)
qed

text \<open>
  C3, as the code has it. Let \<open>b\<close> be the binding of \<open>MOVE_FORWARD\<close> and \<open>k\<close> one of its
  controls. While the context of \<open>b\<close> is not enabled, no press event (a key-down or a
  mouse-down, of \<open>k\<close> or of any other control, whatever the handlers do) changes the
  action state of \<open>MOVE_FORWARD\<close> or calls one of its handlers. Once that context is
  enabled, a raw press of \<open>k\<close> (for a key: one the tracker does not hold as pressed)
  that returns without an exception leaves \<open>MOVE_FORWARD\<close> in state pressed and has
  called every handler registered for it with state pressed. A key-down of a key the
  tracker holds as pressed is taken for a repeat: it returns and changes nothing. Nothing
  is said here of a press during which a handler raises.
\<close>

theorem context_gates_move_forward:
  assumes "getBinding MOVE_FORWARD e = Some b" and "distinct (map fst (bindings e))"
    and "primary b = k \<or> secondary b = Some k"
  shows "(\<not> isContextEnabled (bcontext b) e \<and> is_press i
          \<longrightarrow> actionStates (perform i e) MOVE_FORWARD = actionStates e MOVE_FORWARD
            \<and> (\<forall>c \<in> set (new_calls e (perform i e)). fst c \<noteq> MOVE_FORWARD))
   \<and> (transition j k True (enableContext (bcontext b) e)
        \<and> outcome j (enableContext (bcontext b) e) = Inr ()
          \<longrightarrow> isActionInState MOVE_FORWARD PRESSED (perform j (enableContext (bcontext b) e))
            \<and> (\<forall>hs h. map_get (actionHandlers e) MOVE_FORWARD = Some hs \<and> h \<in> set hs
                  \<longrightarrow> (MOVE_FORWARD, hid h, PRESSED, handler_value MOVE_FORWARD e)
                        \<in> set (new_calls (enableContext (bcontext b) e)
                                 (perform j (enableContext (bcontext b) e)))))
   \<and> (map_get (keyStates e) (toLowerCase key) = Some True
          \<longrightarrow> outcome (KeyDown key) e = Inr () \<and> perform (KeyDown key) e = e)"
proof (intro conjI impI)
  assume a: "\<not> isContextEnabled (bcontext b) e \<and> is_press i"
  then have off: "bcontext b \<notin> activeContexts e" and pr: "is_press i"
    by (simp_all add: isContextEnabled_def)
  from assms(1) have mo: "map_of (bindings e) MOVE_FORWARD = Some b"
    by (simp add: getBinding_def map_get_def)
  have nm: "\<And>key. MOVE_FORWARD \<notin> fst ` set (matching key (activeContexts e) (bindings e))"
    by (rule not_matching [OF assms(2) mo off])
  from press_frame [OF pr, of e] nm
  show "actionStates (perform i e) MOVE_FORWARD = actionStates e MOVE_FORWARD"
    by auto
  from press_frame [OF pr, of e] nm
  show "\<forall>c \<in> set (new_calls e (perform i e)). fst c \<noteq> MOVE_FORWARD"
    by metis
next
  let ?e = "enableContext (bcontext b) e"
  assume a: "transition j k True ?e \<and> outcome j ?e = Inr ()"
  then have t: "transition j k True ?e" and o: "outcome j ?e = Inr ()"
    by simp_all
  have g: "getBinding MOVE_FORWARD ?e = Some b"
    using assms(1) by (simp add: enableContext_def getBinding_def)
  have c: "isContextEnabled (bcontext b) ?e"
    by (simp add: enableContext_def isContextEnabled_def)
  from returning_transition_reaches(1) [OF t o g c assms(3)]
  show "isActionInState MOVE_FORWARD PRESSED (perform j ?e)" by (simp add: newState_def)
  have hv: "handler_value MOVE_FORWARD ?e = handler_value MOVE_FORWARD e"
    by (rule handler_value_frame) (simp add: enableContext_def)
  have ah: "actionHandlers ?e = actionHandlers e" by (simp add: enableContext_def)
  from returning_transition_reaches(2) [OF t o g c assms(3)]
  show "\<forall>hs h. map_get (actionHandlers e) MOVE_FORWARD = Some hs \<and> h \<in> set hs
                  \<longrightarrow> (MOVE_FORWARD, hid h, PRESSED, handler_value MOVE_FORWARD e)
                        \<in> set (new_calls ?e (perform j ?e))"
    by (simp add: newState_def hv ah)
next
  assume "map_get (keyStates e) (toLowerCase key) = Some True"
  then show "outcome (KeyDown key) e = Inr ()" and "perform (KeyDown key) e = e"
    by (simp_all add: repeat_ignored)
qed

theorem context_gates_move_forward_witness:
  "getBinding MOVE_FORWARD scene_gated
     = Some (mk_binding MOVE_FORWARD ''w'' (Some ''arrowup'') PLAYER ''Move Forward'' True)
   \<and> distinct (map fst (bindings scene_gated))
   \<and> \<not> isContextEnabled PLAYER scene_gated
   \<and> actionStates (perform (KeyDown ''w'') scene_gated) MOVE_FORWARD
       = actionStates scene_gated MOVE_FORWARD
   \<and> calls (perform (KeyDown ''w'') scene_gated) = []
   \<and> transition (KeyDown ''w'') ''w'' True (enableContext PLAYER scene_gated)
   \<and> outcome (KeyDown ''w'') (enableContext PLAYER scene_gated) = Inr ()
   \<and> isActionInState MOVE_FORWARD PRESSED
       (perform (KeyDown ''w'') (enableContext PLAYER scene_gated))
   \<and> calls (perform (KeyDown ''w'') (enableContext PLAYER scene_gated))
     = [(MOVE_FORWARD, 1, PRESSED, Some (Num 0))]
   \<and> map_get (keyStates (perform (KeyDown ''w'') scene_gated)) (toLowerCase ''W'') = Some True
   \<and> perform (KeyDown ''W'') (perform (KeyDown ''w'') scene_gated)
       = perform (KeyDown ''w'') scene_gated
   \<and> calls (run [KeyDown ''w'', EnableContext PLAYER, KeyUp ''w'', KeyDown ''w''] scene_gated)
     = [(MOVE_FORWARD, 1, RELEASED, Some (Num 1)), (MOVE_FORWARD, 1, PRESSED, Some (Num 0))]"
proof -
  let ?b = "mk_binding MOVE_FORWARD ''w'' (Some ''arrowup'') PLAYER ''Move Forward'' True"
  have bc: "bcontext ?b = PLAYER" by (simp add: mk_binding_def)
  have g: "getBinding MOVE_FORWARD scene_gated = Some ?b" by code_simp
  have d: "distinct (map fst (bindings scene_gated))" by code_simp
  have k: "primary ?b = ''w'' \<or> secondary ?b = Some ''w''" by (simp add: mk_binding_def)
  have off: "\<not> isContextEnabled PLAYER scene_gated" by code_simp
  have pr: "is_press (KeyDown ''w'')" by simp
  have t: "transition (KeyDown ''w'') ''w'' True (enableContext PLAYER scene_gated)"
    by code_simp
  have o: "outcome (KeyDown ''w'') (enableContext PLAYER scene_gated) = Inr ()"
    by code_simp
  note f1 = context_gates_move_forward
    [OF g d k, of "KeyDown ''w''" "KeyDown ''w''" "''W''", unfolded bc,
     THEN conjunct1, rule_format, OF conjI [OF off pr], THEN conjunct1]
  note f2 = context_gates_move_forward
    [OF g d k, of "KeyDown ''w''" "KeyDown ''w''" "''W''", unfolded bc,
     THEN conjunct2, THEN conjunct1, rule_format, OF conjI [OF t o], THEN conjunct1]
  let ?h = "mk_binding MOVE_FORWARD ''w'' (Some ''arrowup'') PLAYER ''Move Forward'' True"
  have gh: "getBinding MOVE_FORWARD (perform (KeyDown ''w'') scene_gated) = Some ?b"
    by code_simp
  have dh: "distinct (map fst (bindings (perform (KeyDown ''w'') scene_gated)))" by code_simp
  have tr: "map_get (keyStates (perform (KeyDown ''w'') scene_gated)) (toLowerCase ''W'')
      = Some True"
    by code_simp
  note f3 = context_gates_move_forward
    [OF gh dh k, of "KeyDown ''w''" "KeyDown ''w''" "''W''",
     THEN conjunct2, THEN conjunct2, rule_format, OF tr, THEN conjunct2]
  have c1: "calls (perform (KeyDown ''w'') scene_gated) = []" by code_simp
  have c2: "calls (perform (KeyDown ''w'') (enableContext PLAYER scene_gated))
     = [(MOVE_FORWARD, 1, PRESSED, Some (Num 0))]"
    by code_simp
  have c3: "calls (run [KeyDown ''w'', EnableContext PLAYER, KeyUp ''w'', KeyDown ''w'']
       scene_gated)
     = [(MOVE_FORWARD, 1, RELEASED, Some (Num 1)), (MOVE_FORWARD, 1, PRESSED, Some (Num 0))]"
    by code_simp
  show ?thesis
    by (intro conjI g d off f1 c1 t o f2 c2 tr f3 c3)
qed

text \<open>
  The claim C3 as written fails when the key stays down: pressed while the context is
  disabled, the key is tracked as pressed; after the context is enabled, the next
  key-down of it is ignored as a repeat, so \<open>MOVE_FORWARD\<close> is not pressed and its
  handler is not called, although no handler raises.
\<close>

theorem held_key_press_after_enable_counterexample:
  "getBinding MOVE_FORWARD scene_gated
     = Some (mk_binding MOVE_FORWARD ''w'' (Some ''arrowup'') PLAYER ''Move Forward'' True)
   \<and> map_get (actionHandlers scene_gated) MOVE_FORWARD = Some [ok_handler 1]
   \<and> \<not> isContextEnabled PLAYER scene_gated
   \<and> isContextEnabled PLAYER (run [KeyDown ''w'', EnableContext PLAYER] scene_gated)
   \<and> outcome (KeyDown ''w'') (run [KeyDown ''w'', EnableContext PLAYER] scene_gated) = Inr ()
   \<and> \<not> isActionInState MOVE_FORWARD PRESSED
        (run [KeyDown ''w'', EnableContext PLAYER, KeyDown ''w''] scene_gated)
   \<and> calls (run [KeyDown ''w'', EnableContext PLAYER, KeyDown ''w''] scene_gated) = []"
proof -
  have h: "map_get (actionHandlers scene_gated) MOVE_FORWARD = Some [ok_handler 1]"
    by (simp add: scene_gated_def run_def registerActionHandler_def table_defs set_add_def
        map_get_map_set Let_def disableContext_def)
  have r: "getBinding MOVE_FORWARD scene_gated
     = Some (mk_binding MOVE_FORWARD ''w'' (Some ''arrowup'') PLAYER ''Move Forward'' True)
   \<and> \<not> isContextEnabled PLAYER scene_gated
   \<and> isContextEnabled PLAYER (run [KeyDown ''w'', EnableContext PLAYER] scene_gated)
   \<and> outcome (KeyDown ''w'') (run [KeyDown ''w'', EnableContext PLAYER] scene_gated) = Inr ()
   \<and> \<not> isActionInState MOVE_FORWARD PRESSED
        (run [KeyDown ''w'', EnableContext PLAYER, KeyDown ''w''] scene_gated)
   \<and> calls (run [KeyDown ''w'', EnableContext PLAYER, KeyDown ''w''] scene_gated) = []"
    by code_simp
  from h r show ?thesis by (intro conjI) simp_all
qed

subsection \<open>Several actions on one control\<close>

text \<open>
  When a raw transition of control \<open>key\<close> returns without an exception, every action
  whose binding has \<open>key\<close> as primary or secondary control and an enabled context is in
  the new state, and every handler registered for it was called with that state.
\<close>

lemma fan_out_when_returning:
  assumes "transition i key p e" and "outcome i e = Inr ()"
  shows "\<forall>a b. getBinding a e = Some b \<and> isContextEnabled (bcontext b) e
            \<and> (primary b = key \<or> secondary b = Some key)
        \<longrightarrow> isActionInState a (newState p) (perform i e)
          \<and> (\<forall>hs h. map_get (actionHandlers e) a = Some hs \<and> h \<in> set hs
                \<longrightarrow> (a, hid h, newState p, handler_value a e)
                      \<in> set (new_calls e (perform i e)))"
  using returning_transition_reaches [OF assms] by blast

text \<open>
  C5 does not hold of the code. \<open>ATTACK_SECONDARY\<close>, \<open>AIM\<close> and \<open>GRAPPLE\<close> are all
  bound to \<open>mouse1\<close> in the enabled player context. When the handler of the first of
  them raises, a press of \<open>mouse1\<close> ends with the exception: \<open>AIM\<close> and \<open>GRAPPLE\<close> get
  no state and their handlers are not called. Only the first match is served.
\<close>

theorem raising_first_match_starves_the_rest:
  "isContextEnabled PLAYER scene_starved
   \<and> getBinding ATTACK_SECONDARY scene_starved
     = Some (mk_binding ATTACK_SECONDARY ''mouse1'' None PLAYER ''Attack (Secondary)'' True)
   \<and> getBinding AIM scene_starved
     = Some (mk_binding AIM ''mouse1'' None PLAYER ''Aim'' True)
   \<and> getBinding GRAPPLE scene_starved
     = Some (mk_binding GRAPPLE ''mouse1'' None PLAYER ''Grapple'' True)
   \<and> transition (MouseDown 1) ''mouse1'' True scene_starved
   \<and> outcome (MouseDown 1) scene_starved = Inl (HandlerError 1)
   \<and> calls (perform (MouseDown 1) scene_starved) = [(ATTACK_SECONDARY, 1, PRESSED, None)]
   \<and> actionStates (perform (MouseDown 1) scene_starved) ATTACK_SECONDARY = Some PRESSED
   \<and> actionStates (perform (MouseDown 1) scene_starved) AIM = None
   \<and> actionStates (perform (MouseDown 1) scene_starved) GRAPPLE = None"
  by code_simp

subsection \<open>Loss of focus\<close>

lemma pressed_keys_simps:
  "pressed_keys [] = []"
  "pressed_keys ((k, True) # ks) = k # pressed_keys ks"
  "pressed_keys ((k, False) # ks) = pressed_keys ks"
  by (simp_all add: pressed_keys_def)

lemma quiet_update2 [simp]:
  "quiet (e\<lparr>keyStates := k, actionStates := m, calls := c\<rparr>) = quiet e"
  by (simp add: quiet_def)

lemma blur_loop_quiet:
  "quiet e \<Longrightarrow>
   blur_loop ks e =
     (Inr (), e\<lparr>keyStates := fold (\<lambda>k m. map_set k False m) (pressed_keys ks) (keyStates e),
               actionStates := fold (\<lambda>k m. set_states k False e m) (pressed_keys ks)
                                 (actionStates e),
               calls := calls e @ concat (map (\<lambda>k. dispatched k False e) (pressed_keys ks))\<rparr>)"
proof (induction ks arbitrary: e rule: pair_list_induct)
  case Nil
  show ?case by (simp add: blur_loop_Nil pressed_keys_simps)
next
  case (Cons key pressed ks)
  show ?case
  proof (cases pressed)
    case False
    then show ?thesis using Cons by (simp add: blur_loop_idle pressed_keys_simps)
  next
    case True
    let ?e1 = "e\<lparr>keyStates := map_set key False (keyStates e)\<rparr>"
    let ?e2 = "?e1\<lparr>actionStates := set_states key False ?e1 (actionStates ?e1),
                    calls := calls ?e1 @ dispatched key False ?e1\<rparr>"
    have q1: "quiet ?e1" using Cons.prems by simp
    have pr: "processInputChange key False ?e1 = (Inr (), ?e2)"
      by (rule processInputChange_quiet [OF q1])
    have q2: "quiet ?e2" using Cons.prems by simp
    have "blur_loop ((key, pressed) # ks) e = blur_loop ks ?e2"
      by (simp only: True blur_loop_pressed pr prod.case sum.case)
    also note Cons.IH [OF q2]
    finally show ?thesis using True by (simp add: pressed_keys_simps)
  qed
qed

lemma fold_release_get:
  "map_get (fold (\<lambda>k m. map_set k False m) ps m) k =
     (if k \<in> set ps then Some False else map_get m k)"
  by (induction ps arbitrary: m) (auto simp: map_get_map_set)

lemma pressed_keys_mem: "k \<in> set (pressed_keys ks) \<longleftrightarrow> (k, True) \<in> set ks"
  by (force simp: pressed_keys_def)

lemma released_tracker:
  "map_get (fold (\<lambda>k m. map_set k False m) (pressed_keys ks) ks) k =
     map_option (\<lambda>v. False) (map_get ks k)"
proof (cases "map_get ks k")
  case None
  then have "k \<notin> fst ` set ks" by (simp add: map_get_def map_of_eq_None_iff)
  then have "k \<notin> set (pressed_keys ks)" by (force simp: pressed_keys_mem)
  with None show ?thesis by (simp add: fold_release_get)
next
  case (Some v)
  show ?thesis
  proof (cases v)
    case True
    with Some have "(k, True) \<in> set ks" by (simp add: map_get_def map_of_SomeD)
    then show ?thesis using Some by (simp add: fold_release_get pressed_keys_mem)
  next
    case False
    with Some show ?thesis by (simp add: fold_release_get)
  qed
qed

lemma fold_set_states_hit:
  assumes "k \<in> set ps" and "(a, b) \<in> set (bindings e)" and "hit k (activeContexts e) b"
  shows "fold (\<lambda>k m. set_states k p e m) ps m a = Some (newState p)"
  using assms(1)
proof (induction ps arbitrary: m rule: rev_induct)
  case Nil
  then show ?case by simp
next
  case (snoc x xs)
  show ?case
  proof (cases "a \<in> fst ` set (matching x (activeContexts e) (bindings e))")
    case True
    then obtain b' where "(a, b') \<in> set (bindings e)" "hit x (activeContexts e) b'"
      by (auto simp: matching_mem)
    then show ?thesis by (simp add: set_states_hit)
  next
    case False
    with assms(2,3) have "x \<noteq> k"
      by (metis fst_conv image_eqI matching_mem)
    with snoc.prems have "k \<in> set xs" by simp
    from snoc.IH [OF this] False show ?thesis by (simp add: set_states_miss)
  qed
qed

lemma zero_axis_get:
  "map_get (map (\<lambda>(a, v). (a, 0::int)) xs) a = map_option (\<lambda>v. 0) (map_get xs a)"
  by (induction xs) (auto simp: map_get_def)

lemma handleWindowBlur_quiet:
  assumes "quiet e"
  shows "handleWindowBlur e =
     (Inr (), e\<lparr>keyStates := fold (\<lambda>k m. map_set k False m) (pressed_keys (keyStates e))
                                (keyStates e),
               actionStates := fold (\<lambda>k m. set_states k False e m) (pressed_keys (keyStates e))
                                 (actionStates e),
               calls := calls e @
                 concat (map (\<lambda>k. dispatched k False e) (pressed_keys (keyStates e))),
               axisValues := map (\<lambda>(a, v). (a, 0)) (axisValues e)\<rparr>)"
  by (simp add: handleWindowBlur_def blur_loop_quiet [OF assms])

lemma quiet_raw_event: "is_raw_event i \<Longrightarrow> quiet (perform i e) = quiet e"
  using raw_event_step [of i e] by (simp add: event_step_def quiet_def)

lemma quiet_events:
  "quiet (snd (handleKeyDown k e)) = quiet e"
  "quiet (snd (handleKeyUp k e)) = quiet e"
  "quiet (snd (handleMouseDown b e)) = quiet e"
  "quiet (snd (handleMouseUp b e)) = quiet e"
  "quiet (snd (handleWindowBlur e)) = quiet e"
  using quiet_raw_event [of "KeyDown k" e] quiet_raw_event [of "KeyUp k" e]
    quiet_raw_event [of "MouseDown b" e] quiet_raw_event [of "MouseUp b" e]
    quiet_raw_event [of WindowBlur e]
  by simp_all

text \<open>
  When no registered handler raises, \<^verbatim>\<open>handleWindowBlur\<close> returns; every tracked control
  is reported released afterwards (and no control becomes tracked); every action bound
  to a control that was pressed, with its context enabled, ends in state released and
  each of its handlers was called with state released; every axis value reads 0 and every
  stored axis entry is kept with value 0.
\<close>

lemma focus_loss_when_no_handler_raises:
  assumes "quiet e"
  shows "outcome WindowBlur e = Inr ()
   \<and> (\<forall>k. map_get (keyStates (perform WindowBlur e)) k
           = map_option (\<lambda>v. False) (map_get (keyStates e) k))
   \<and> (\<forall>k a b. map_get (keyStates e) k = Some True \<and> getBinding a e = Some b
              \<and> isContextEnabled (bcontext b) e \<and> (primary b = k \<or> secondary b = Some k)
        \<longrightarrow> isActionInState a RELEASED (perform WindowBlur e)
          \<and> (\<forall>hs h. map_get (actionHandlers e) a = Some hs \<and> h \<in> set hs
                \<longrightarrow> (a, hid h, RELEASED, handler_value a e)
                      \<in> set (new_calls e (perform WindowBlur e))))
   \<and> (\<forall>a. getAxisValue a (perform WindowBlur e) = 0)
   \<and> map fst (axisValues (perform WindowBlur e)) = map fst (axisValues e)
   \<and> list_all (\<lambda>av. snd av = 0) (axisValues (perform WindowBlur e))"
proof -
  note w = handleWindowBlur_quiet [OF assms]
  have o: "outcome WindowBlur e = Inr ()" by (simp add: w)
  have ks: "\<forall>k. map_get (keyStates (perform WindowBlur e)) k
           = map_option (\<lambda>v. False) (map_get (keyStates e) k)"
    by (simp add: w released_tracker)
  have ax: "\<forall>a. getAxisValue a (perform WindowBlur e) = 0"
    by (simp add: w getAxisValue_def zero_axis_get split: option.splits)
  have axk: "map fst (axisValues (perform WindowBlur e)) = map fst (axisValues e)"
    by (simp add: w comp_def case_prod_unfold)
  have axz: "list_all (\<lambda>av. snd av = 0) (axisValues (perform WindowBlur e))"
    by (simp add: w list_all_iff case_prod_unfold)
  have act: "\<forall>k a b. map_get (keyStates e) k = Some True \<and> getBinding a e = Some b
              \<and> isContextEnabled (bcontext b) e \<and> (primary b = k \<or> secondary b = Some k)
        \<longrightarrow> isActionInState a RELEASED (perform WindowBlur e)
          \<and> (\<forall>hs h. map_get (actionHandlers e) a = Some hs \<and> h \<in> set hs
                \<longrightarrow> (a, hid h, RELEASED, handler_value a e)
                      \<in> set (new_calls e (perform WindowBlur e)))"
  proof (intro allI impI)
    fix k a b
    assume h: "map_get (keyStates e) k = Some True \<and> getBinding a e = Some b
              \<and> isContextEnabled (bcontext b) e \<and> (primary b = k \<or> secondary b = Some k)"
    then have pk: "k \<in> set (pressed_keys (keyStates e))"
      by (simp add: pressed_keys_mem map_get_def map_of_SomeD)
    from h have m: "(a, b) \<in> set (bindings e)" by (simp add: getBinding_mem)
    from h have ht: "hit k (activeContexts e) b" by (simp add: hit_def isContextEnabled_def)
    have st: "isActionInState a RELEASED (perform WindowBlur e)"
      using fold_set_states_hit [OF pk m ht, of False]
      by (simp add: w isActionInState_def newState_def)
    have cl: "\<forall>hs h. map_get (actionHandlers e) a = Some hs \<and> h \<in> set hs
                \<longrightarrow> (a, hid h, RELEASED, handler_value a e)
                      \<in> set (new_calls e (perform WindowBlur e))"
    proof (intro allI impI)
      fix hs h
      assume r: "map_get (actionHandlers e) a = Some hs \<and> h \<in> set hs"
      then have "(a, hid h, newState False, handler_value a e) \<in> set (dispatched k False e)"
        using dispatched_mem [OF m ht] by blast
      then show "(a, hid h, RELEASED, handler_value a e) \<in> set (new_calls e (perform WindowBlur e))"
        using pk by (auto simp: w new_calls_def newState_def)
    qed
    from st cl show "isActionInState a RELEASED (perform WindowBlur e)
          \<and> (\<forall>hs h. map_get (actionHandlers e) a = Some hs \<and> h \<in> set hs
                \<longrightarrow> (a, hid h, RELEASED, handler_value a e)
                      \<in> set (new_calls e (perform WindowBlur e)))"
      by (rule conjI)
  qed
  from o ks act ax axk axz show ?thesis by (intro conjI)
qed

text \<open>
  C6 does not hold of the code. Three controls are held (\<open>w\<close>, the space key,
  \<open>mouse1\<close>) and the handler of \<open>JUMP\<close> raises when told of a release. On loss of focus
  the loop releases \<open>w\<close>, then the space key, and ends with the exception of that
  handler: \<open>mouse1\<close> stays tracked as pressed, \<open>RELEASE_GRAPPLE\<close> and \<open>AIM\<close> stay
  pressed, and the axis values are not set to 0.
\<close>

theorem focus_loss_aborted_by_exception:
  "map_get (keyStates scene_held) ''w'' = Some True
   \<and> map_get (keyStates scene_held) '' '' = Some True
   \<and> map_get (keyStates scene_held) ''mouse1'' = Some True
   \<and> isContextEnabled PLAYER scene_held
   \<and> getAxisValue MOVE_FORWARD scene_held = 1
   \<and> outcome WindowBlur scene_held = Inl (HandlerError 2)
   \<and> new_calls scene_held (perform WindowBlur scene_held)
     = [(MOVE_FORWARD, 1, RELEASED, Some (Num 1)), (JUMP, 2, RELEASED, None)]
   \<and> map_get (keyStates (perform WindowBlur scene_held)) ''mouse1'' = Some True
   \<and> isActionInState RELEASE_GRAPPLE PRESSED (perform WindowBlur scene_held)
   \<and> isActionInState AIM PRESSED (perform WindowBlur scene_held)
   \<and> getAxisValue MOVE_FORWARD (perform WindowBlur scene_held) = 1"
  by code_simp

subsection \<open>Movement axes\<close>

lemma isKey_controls:
  "(case getBinding a e of None \<Rightarrow> True | Some b \<Rightarrow> secondary b \<noteq> Some []) \<Longrightarrow>
   isKeyForActionPressed a e = controls_pressed a e"
  by (auto simp: isKeyForActionPressed_def controls_pressed_def getBinding_def
      split: option.splits)

lemma movement_tokens_keys:
  assumes "movement_tokens e"
  shows "isKeyForActionPressed MOVE_RIGHT e = controls_pressed MOVE_RIGHT e"
    and "isKeyForActionPressed MOVE_LEFT e = controls_pressed MOVE_LEFT e"
    and "isKeyForActionPressed MOVE_FORWARD e = controls_pressed MOVE_FORWARD e"
    and "isKeyForActionPressed MOVE_BACKWARD e = controls_pressed MOVE_BACKWARD e"
  using assms by (simp_all add: movement_tokens_def isKey_controls)

lemma pressed_axis_update [simp]:
  "isKeyForActionPressed a (e\<lparr>axisValues := x\<rparr>) = isKeyForActionPressed a e"
  "controls_pressed a (e\<lparr>axisValues := x\<rparr>) = controls_pressed a e"
  by (simp_all add: isKeyForActionPressed_def controls_pressed_def getBinding_def
      split: option.splits)

lemma controls_pressed_updateAxisValues [simp]:
  "controls_pressed a (updateAxisValues e) = controls_pressed a e"
  by (simp add: controls_pressed_def getBinding_def updateAxisValues_frame
      split: option.splits)

lemma updateAxisValues_values:
  "getAxisValue MOVE_RIGHT (updateAxisValues e) =
     (if isKeyForActionPressed MOVE_RIGHT e then 1 else 0)
     - (if isKeyForActionPressed MOVE_LEFT e then 1 else 0)"
  "getAxisValue MOVE_FORWARD (updateAxisValues e) =
     (if isKeyForActionPressed MOVE_FORWARD e then 1 else 0)
     - (if isKeyForActionPressed MOVE_BACKWARD e then 1 else 0)"
  by (simp_all add: updateAxisValues_def Let_def getAxisValue_def map_get_map_set)

lemma updateAxisValues_sync: "movement_tokens e \<Longrightarrow> axes_in_sync (updateAxisValues e)"
  by (simp add: axes_in_sync_def updateAxisValues_values movement_tokens_keys axisFor_def)

lemma movement_tokens_same_bindings:
  "bindings e' = bindings e \<Longrightarrow> movement_tokens e' = movement_tokens e"
  by (simp add: movement_tokens_def getBinding_def)

text \<open>A key event, when no handler raises, is ignored or ends in \<^verbatim>\<open>updateAxisValues\<close>.\<close>

lemma key_event_shape:
  assumes "quiet e" and "is_key_event i"
  shows "perform i e = e \<or> (\<exists>x. perform i e = updateAxisValues x \<and> bindings x = bindings e)"
proof (cases i)
  case (KeyDown k)
  let ?e1 = "e\<lparr>keyStates := map_set (toLowerCase k) True (keyStates e)\<rparr>"
  have q: "quiet ?e1" using assms(1) by simp
  show ?thesis
  proof (cases "map_get (keyStates e) (toLowerCase k) = Some True")
    case True
    then show ?thesis using KeyDown by (simp add: handleKeyDown_def)
  next
    case False
    then have "perform i e = updateAxisValues
        (?e1\<lparr>actionStates := set_states (toLowerCase k) True ?e1 (actionStates ?e1),
              calls := calls ?e1 @ dispatched (toLowerCase k) True ?e1\<rparr>)"
      using KeyDown by (simp add: handleKeyDown_def Let_def processInputChange_quiet [OF q])
    then show ?thesis by (intro disjI2 exI conjI, assumption) simp
  qed
next
  case (KeyUp k)
  let ?e1 = "e\<lparr>keyStates := map_set (toLowerCase k) False (keyStates e)\<rparr>"
  have q: "quiet ?e1" using assms(1) by simp
  have "perform i e = updateAxisValues
        (?e1\<lparr>actionStates := set_states (toLowerCase k) False ?e1 (actionStates ?e1),
              calls := calls ?e1 @ dispatched (toLowerCase k) False ?e1\<rparr>)"
    using KeyUp by (simp add: handleKeyUp_def Let_def processInputChange_quiet [OF q])
  then show ?thesis by (intro disjI2 exI conjI, assumption) simp
qed (use assms(2) in simp_all)

lemma key_event_keeps:
  assumes "quiet e" and "movement_tokens e" and "axes_in_sync e" and "is_key_event i"
  shows "quiet (perform i e) \<and> movement_tokens (perform i e) \<and> axes_in_sync (perform i e)"
proof -
  from assms(4) have r: "is_raw_event i" by (cases i) simp_all
  have q: "quiet (perform i e)" using assms(1) by (simp add: quiet_raw_event [OF r])
  have b: "bindings (perform i e) = bindings e"
    using raw_event_step [OF r, of e] by (simp add: event_step_def)
  have m: "movement_tokens (perform i e)"
    using assms(2) movement_tokens_same_bindings [OF b] by simp
  from key_event_shape [OF assms(1,4)] have "axes_in_sync (perform i e)"
  proof
    assume "perform i e = e"
    then show ?thesis using assms(3) by simp
  next
    assume "\<exists>x. perform i e = updateAxisValues x \<and> bindings x = bindings e"
    then obtain x where x: "perform i e = updateAxisValues x" "bindings x = bindings e"
      by blast
    have "movement_tokens x"
      using assms(2) movement_tokens_same_bindings [OF x(2)] by simp
    then show ?thesis unfolding x(1) by (rule updateAxisValues_sync)
  qed
  with q m show ?thesis by simp
qed

lemma key_events_keep:
  "quiet e \<Longrightarrow> movement_tokens e \<Longrightarrow> axes_in_sync e \<Longrightarrow> list_all is_key_event is \<Longrightarrow>
   axes_in_sync (run is e)"
  unfolding run_def
proof (induction "is" arbitrary: e)
  case Nil
  then show ?case by simp
next
  case (Cons i "is")
  from Cons.prems(4) have i: "is_key_event i" and r: "list_all is_key_event is" by simp_all
  from key_event_keeps [OF Cons.prems(1-3) i] Cons.IH [OF _ _ _ r]
  show ?case by simp
qed

lemma axisFor_range: "axisFor p n e = - 1 \<or> axisFor p n e = 0 \<or> axisFor p n e = 1"
  by (simp add: axisFor_def)

text \<open>
  Between key events, when no handler raises: start from a state in which the stored axis
  values agree with the tracker and feed it key-down and key-up events; after every
  prefix of the sequence the axis read under \<open>MOVE_RIGHT\<close> is
  \<open>axisFor MOVE_RIGHT MOVE_LEFT\<close> and the one read under \<open>MOVE_FORWARD\<close> is
  \<open>axisFor MOVE_FORWARD MOVE_BACKWARD\<close>.
\<close>

lemma axes_agree_after_key_events:
  assumes "quiet e" and "movement_tokens e" and "axes_in_sync e"
    and "list_all is_key_event is"
  shows "getAxisValue MOVE_RIGHT (run (take n is) e)
           = axisFor MOVE_RIGHT MOVE_LEFT (run (take n is) e)
   \<and> getAxisValue MOVE_FORWARD (run (take n is) e)
           = axisFor MOVE_FORWARD MOVE_BACKWARD (run (take n is) e)
   \<and> getAxisValue MOVE_RIGHT (run (take n is) e) \<in> {- 1, 0, 1}
   \<and> getAxisValue MOVE_FORWARD (run (take n is) e) \<in> {- 1, 0, 1}"
proof -
  have "list_all is_key_event (take n is)"
    using assms(4) by (auto simp: list_all_iff dest: in_set_takeD)
  from key_events_keep [OF assms(1-3) this]
  have s: "axes_in_sync (run (take n is) e)" .
  then show ?thesis
    using axisFor_range [of MOVE_RIGHT MOVE_LEFT "run (take n is) e"]
      axisFor_range [of MOVE_FORWARD MOVE_BACKWARD "run (take n is) e"]
    by (auto simp: axes_in_sync_def)
qed

text \<open>
  C4 does not hold of the code. The handlers of a key event run after the tracker is
  written and before \<^verbatim>\<open>updateAxisValues\<close>, so the axis value they are passed, and read,
  is the one from before the event. With left held, the press of right calls the
  \<open>MOVE_RIGHT\<close> handler with -1 while both directions are pressed; the last release
  calls it with 1 while neither is pressed. And when a handler raises,
  \<^verbatim>\<open>updateAxisValues\<close> is not reached at all: after a press and a release of right, with
  a \<open>MOVE_RIGHT\<close> handler that raises on release, nothing is pressed and the axis still
  reads 1.
\<close>

theorem handlers_see_stale_axis:
  "calls (run both_then_neither scene_axes)
     = [(MOVE_LEFT, 1, PRESSED, Some (Num 0)), (MOVE_RIGHT, 2, PRESSED, Some (Num (- 1))),
        (MOVE_LEFT, 1, RELEASED, Some (Num 0)), (MOVE_RIGHT, 2, RELEASED, Some (Num 1))]
   \<and> controls_pressed MOVE_LEFT (tracked ''d'' True (run [KeyDown ''a''] scene_axes))
   \<and> controls_pressed MOVE_RIGHT (tracked ''d'' True (run [KeyDown ''a''] scene_axes))
   \<and> getAxisValue MOVE_RIGHT (tracked ''d'' True (run [KeyDown ''a''] scene_axes)) = - 1
   \<and> new_calls (run [KeyDown ''a''] scene_axes)
        (snd (processInputChange ''d'' True
                (tracked ''d'' True (run [KeyDown ''a''] scene_axes))))
     = [(MOVE_RIGHT, 2, PRESSED, Some (Num (- 1)))]
   \<and> \<not> controls_pressed MOVE_LEFT
        (tracked ''d'' False (run [KeyDown ''a'', KeyDown ''d'', KeyUp ''a''] scene_axes))
   \<and> \<not> controls_pressed MOVE_RIGHT
        (tracked ''d'' False (run [KeyDown ''a'', KeyDown ''d'', KeyUp ''a''] scene_axes))
   \<and> getAxisValue MOVE_RIGHT
        (tracked ''d'' False (run [KeyDown ''a'', KeyDown ''d'', KeyUp ''a''] scene_axes)) = 1
   \<and> new_calls (run [KeyDown ''a'', KeyDown ''d'', KeyUp ''a''] scene_axes)
        (snd (processInputChange ''d'' False
                (tracked ''d'' False (run [KeyDown ''a'', KeyDown ''d'', KeyUp ''a''] scene_axes))))
     = [(MOVE_RIGHT, 2, RELEASED, Some (Num 1))]
   \<and> outcome (KeyUp ''d'') (run [KeyDown ''d''] scene_axis_raising) = Inl (HandlerError 2)
   \<and> \<not> controls_pressed MOVE_RIGHT (run [KeyDown ''d'', KeyUp ''d''] scene_axis_raising)
   \<and> \<not> controls_pressed MOVE_LEFT (run [KeyDown ''d'', KeyUp ''d''] scene_axis_raising)
   \<and> getAxisValue MOVE_RIGHT (run [KeyDown ''d'', KeyUp ''d''] scene_axis_raising) = 1"
  by code_simp

end
